theory Spec2Isabelle
  imports Main
begin

text \<open>
  The class \<open>BareEmitter\<close>: a registry \<open>events\<close> from event names to arrays of
  listeners, with the methods \<open>on\<close>, \<open>off\<close>, \<open>once\<close> and \<open>emit\<close>. The methods
  are embedded as functions on an explicit state; listeners are function objects with an
  identity, and what they do when invoked (they may call the emitter again, or throw)
  is a parameter of the semantics.
\<close>

section \<open>Listeners, worlds and outcomes\<close>

text \<open>
  A \<open>Listener\<close> is a function value, compared by reference (\<open>fn !== listener\<close>).
  Two kinds of function objects reach the emitter: functions of the calling code,
  \<open>Fn n\<close> (the number is the identity of the function object), and the closures
  \<open>onceWrapper\<close> that \<open>once\<close> creates. Every call of \<open>once\<close> creates a new closure
  object; \<open>OnceWrapper k eventName listener\<close> is the \<open>k\<close>-th closure created, with the
  two variables it captures.
\<close>

datatype listener = Fn nat | OnceWrapper nat string listener

text \<open>
  What a function of the calling code does when it is invoked: it calls methods of the
  emitter, in sequence, and may throw. It holds references to functions of the calling
  code only (\<open>onceWrapper\<close> is never handed out). A program gives, for every function
  of the calling code, the actions of one invocation; they may depend on the arguments
  and on the world at the time of the call (so a function may, for instance, behave
  differently the second time it is called).
\<close>

datatype 'a action =
    CallOn string nat
  | CallOff string "nat option"
  | CallOnce string nat
  | CallEmit string "'a list"
  | Throw nat

datatype error = TypeError | ListenerError nat

text \<open>
  The state: the field \<open>events\<close> (the own properties of the object), the number of
  \<open>onceWrapper\<close> closures created so far, and the record of every function invocation
  \<open>(d, fn, args)\<close>, where \<open>d\<close> is the depth of the frame that made the call.
\<close>

record 'a world =
  events :: "string \<rightharpoonup> listener list"
  closures :: nat
  calls :: "(nat \<times> listener \<times> 'a list) list"

type_synonym 'a program = "nat \<Rightarrow> 'a list \<Rightarrow> 'a world \<Rightarrow> 'a action list"

datatype ('r, 'a) outcome = OutOfFuel | Throws error "'a world" | Returns 'r "'a world"

definition new_BareEmitter :: "'a world" where
  "new_BareEmitter = \<lparr>events = Map.empty, closures = 0, calls = []\<rparr>"

section \<open>Property lookup on \<open>this.events\<close>\<close>

text \<open>
  \<open>events\<close> is created by the object literal \<open>{}\<close>, so a property read
  \<open>this.events[eventName]\<close> that finds no own property continues in
  \<open>Object.prototype\<close>. Its properties are functions (recorded with their \<open>length\<close>)
  and the accessor \<open>__proto__\<close>, which yields an object without a \<open>length\<close>.
\<close>

definition Object_prototype :: "string \<rightharpoonup> nat option" where
  "Object_prototype = [
     ''constructor'' \<mapsto> Some 1,
     ''hasOwnProperty'' \<mapsto> Some 1,
     ''isPrototypeOf'' \<mapsto> Some 1,
     ''propertyIsEnumerable'' \<mapsto> Some 1,
     ''toLocaleString'' \<mapsto> Some 0,
     ''toString'' \<mapsto> Some 0,
     ''valueOf'' \<mapsto> Some 0,
     ''__defineGetter__'' \<mapsto> Some 2,
     ''__defineSetter__'' \<mapsto> Some 2,
     ''__lookupGetter__'' \<mapsto> Some 1,
     ''__lookupSetter__'' \<mapsto> Some 1,
     ''__proto__'' \<mapsto> None]"

datatype property = Undefined | Own "listener list" | Inherited "nat option"

definition get :: "'a world \<Rightarrow> string \<Rightarrow> property" where
  "get w eventName =
     (case events w eventName of
        Some listeners \<Rightarrow> Own listeners
      | None \<Rightarrow>
          (case Object_prototype eventName of
             Some p \<Rightarrow> Inherited p
           | None \<Rightarrow> Undefined))"

section \<open>The methods\<close>

text \<open>
  \<open>on\<close>: \<open>if (!this.events[eventName]) this.events[eventName] = [];\<close> then
  \<open>this.events[eventName].push(listener)\<close>. An inherited property is truthy and has
  no \<open>push\<close>: the call throws a TypeError.
\<close>

definition on :: "'a world \<Rightarrow> string \<Rightarrow> listener \<Rightarrow> (unit, 'a) outcome" where
  "on w eventName listener =
     (let w1 = (if get w eventName = Undefined
                then w\<lparr>events := (events w)(eventName \<mapsto> [])\<rparr> else w)
      in case get w1 eventName of
           Own listeners \<Rightarrow>
             Returns () (w1\<lparr>events := (events w1)(eventName \<mapsto> listeners @ [listener])\<rparr>)
         | _ \<Rightarrow> Throws TypeError w1)"

text \<open>
  \<open>off\<close>: returns at once when \<open>this.events[eventName]\<close> is falsy; with a listener
  it stores the filtered array, without one it deletes the own property. An inherited
  property has no \<open>filter\<close> (TypeError), and \<open>delete\<close> leaves it alone.
\<close>

definition off :: "'a world \<Rightarrow> string \<Rightarrow> listener option \<Rightarrow> (unit, 'a) outcome" where
  "off w eventName listener =
     (case get w eventName of
        Undefined \<Rightarrow> Returns () w
      | Own listeners \<Rightarrow>
          (case listener of
             Some l \<Rightarrow>
               Returns () (w\<lparr>events := (events w)(eventName \<mapsto> filter (\<lambda>fn. fn \<noteq> l) listeners)\<rparr>)
           | None \<Rightarrow> Returns () (w\<lparr>events := (events w)(eventName := None)\<rparr>))
      | Inherited p \<Rightarrow>
          (case listener of
             Some l \<Rightarrow> Throws TypeError w
           | None \<Rightarrow> Returns () (w\<lparr>events := (events w)(eventName := None)\<rparr>)))"

text \<open>\<open>once\<close>: creates the closure \<open>onceWrapper\<close> and registers it with \<open>on\<close>.\<close>

definition once :: "'a world \<Rightarrow> string \<Rightarrow> listener \<Rightarrow> (unit, 'a) outcome" where
  "once w eventName listener =
     (let onceWrapper = OnceWrapper (closures w) eventName listener
      in on (w\<lparr>closures := Suc (closures w)\<rparr>) eventName onceWrapper)"

text \<open>
  \<open>emit\<close> and the functions it invokes. A listener may call \<open>emit\<close> again, so the
  functions below take the \<open>emit\<close> that nested calls reach as the parameter \<open>em\<close>;
  \<open>d\<close> is the depth of the calling frame.
  \<^item> \<open>perform\<close>: one action of a function of the calling code.
  \<^item> \<open>run\<close>: its actions in sequence, until one throws.
  \<^item> \<open>invoke\<close>: a function call. A function of the calling code runs its actions;
    \<open>onceWrapper\<close> runs \<open>listener(...args)\<close>, then \<open>this.off(eventName, onceWrapper)\<close>.
  \<^item> \<open>forEach\<close>: \<open>fn(...args)\<close> for each element of the copy, in order; an exception
    ends the loop.
  \<^item> \<open>emit\<close>: \<open>if (!listeners || listeners.length === 0) return false;\<close> then the copy
    \<open>[...listeners]\<close> (an inherited value is not iterable: TypeError), \<open>forEach\<close> and
    \<open>return true\<close>. The fuel bounds the nesting of \<open>emit\<close> calls.
\<close>

type_synonym 'a emitter = "nat \<Rightarrow> 'a world \<Rightarrow> string \<Rightarrow> 'a list \<Rightarrow> (bool, 'a) outcome"

definition perform :: "'a emitter \<Rightarrow> nat \<Rightarrow> 'a action \<Rightarrow> 'a world \<Rightarrow> (unit, 'a) outcome" where
  "perform em d a w =
     (case a of
        CallOn eventName n \<Rightarrow> on w eventName (Fn n)
      | CallOff eventName l \<Rightarrow> off w eventName (map_option Fn l)
      | CallOnce eventName n \<Rightarrow> once w eventName (Fn n)
      | CallEmit eventName args \<Rightarrow>
          (case em d w eventName args of
             OutOfFuel \<Rightarrow> OutOfFuel
           | Throws x w' \<Rightarrow> Throws x w'
           | Returns b w' \<Rightarrow> Returns () w')
      | Throw x \<Rightarrow> Throws (ListenerError x) w)"

fun run :: "'a emitter \<Rightarrow> nat \<Rightarrow> 'a action list \<Rightarrow> 'a world \<Rightarrow> (unit, 'a) outcome" where
  "run em d [] w = Returns () w"
| "run em d (a # as) w =
     (case perform em d a w of
        OutOfFuel \<Rightarrow> OutOfFuel
      | Throws x w' \<Rightarrow> Throws x w'
      | Returns u w' \<Rightarrow> run em d as w')"

fun invoke :: "'a emitter \<Rightarrow> 'a program \<Rightarrow> nat \<Rightarrow> listener \<Rightarrow> 'a list \<Rightarrow> 'a world \<Rightarrow> (unit, 'a) outcome" where
  "invoke em P d (Fn n) args w =
     (let w1 = w\<lparr>calls := calls w @ [(d, Fn n, args)]\<rparr>
      in run em (Suc d) (P n args w1) w1)"
| "invoke em P d (OnceWrapper k eventName listener) args w =
     (case invoke em P (Suc d) listener args
             (w\<lparr>calls := calls w @ [(d, OnceWrapper k eventName listener, args)]\<rparr>) of
        OutOfFuel \<Rightarrow> OutOfFuel
      | Throws x w' \<Rightarrow> Throws x w'
      | Returns u w' \<Rightarrow> off w' eventName (Some (OnceWrapper k eventName listener)))"

fun forEach :: "'a emitter \<Rightarrow> 'a program \<Rightarrow> nat \<Rightarrow> listener list \<Rightarrow> 'a list \<Rightarrow> 'a world \<Rightarrow> (unit, 'a) outcome" where
  "forEach em P d [] args w = Returns () w"
| "forEach em P d (fn # fns) args w =
     (case invoke em P d fn args w of
        OutOfFuel \<Rightarrow> OutOfFuel
      | Throws x w' \<Rightarrow> Throws x w'
      | Returns u w' \<Rightarrow> forEach em P d fns args w')"

definition emit_body :: "'a emitter \<Rightarrow> 'a program \<Rightarrow> 'a emitter" where
  "emit_body em P d w eventName args =
     (case get w eventName of
        Undefined \<Rightarrow> Returns False w
      | Inherited p \<Rightarrow> (if p = Some 0 then Returns False w else Throws TypeError w)
      | Own listeners \<Rightarrow>
          (if length listeners = 0 then Returns False w
           else (case forEach em P d listeners args w of
                   OutOfFuel \<Rightarrow> OutOfFuel
                 | Throws x w' \<Rightarrow> Throws x w'
                 | Returns u w' \<Rightarrow> Returns True w')))"

primrec emit :: "'a program \<Rightarrow> nat \<Rightarrow> 'a emitter" where
  "emit P 0 = (\<lambda>d w eventName args. OutOfFuel)"
| "emit P (Suc fuel) = emit_body (emit P fuel) P"

section \<open>Observing a run\<close>

text \<open>
  The world in which an outcome ends (none when the fuel ran out), the invocations
  recorded between two worlds, and among them those made by the frame at depth \<open>d\<close>
  itself: for a call of \<open>emit\<close> at depth \<open>d\<close>, the listeners that this call of
  \<open>emit\<close> invoked, with their arguments.
\<close>

definition final :: "('r, 'a) outcome \<Rightarrow> 'a world option" where
  "final out = (case out of OutOfFuel \<Rightarrow> None | Throws x w \<Rightarrow> Some w | Returns r w \<Rightarrow> Some w)"

definition since :: "'a world \<Rightarrow> 'a world \<Rightarrow> (nat \<times> listener \<times> 'a list) list" where
  "since w w' = drop (length (calls w)) (calls w')"

definition direct :: "nat \<Rightarrow> 'a world \<Rightarrow> 'a world \<Rightarrow> (listener \<times> 'a list) list" where
  "direct d w w' = map snd (filter (\<lambda>c. fst c = d) (since w w'))"

text \<open>
  \<open>ext d w w'\<close>: the record of \<open>w'\<close> continues the record of \<open>w\<close> with calls made at
  depth \<open>d\<close> or deeper. \<open>em_ok\<close>: an \<open>emit\<close> function that only ever does that.
\<close>

definition ext :: "nat \<Rightarrow> 'a world \<Rightarrow> 'a world \<Rightarrow> bool" where
  "ext d w w' \<longleftrightarrow> (\<exists>new. calls w' = calls w @ new \<and> list_all (\<lambda>c. d \<le> fst c) new)"

definition em_ok :: "'a emitter \<Rightarrow> bool" where
  "em_ok em \<longleftrightarrow> (\<forall>d w e args w'. final (em d w e args) = Some w' \<longrightarrow> ext d w w')"

text \<open>The listeners registered for an event name: none when the key is absent.\<close>

definition listeners_of :: "'a world \<Rightarrow> string \<Rightarrow> listener list" where
  "listeners_of w eventName = (case events w eventName of None \<Rightarrow> [] | Some ls \<Rightarrow> ls)"

section \<open>Predicates on worlds and programs\<close>

text \<open>
  Well-formed worlds. Only \<open>once\<close> creates \<open>onceWrapper\<close> closures and it registers
  each under the event name the closure captures, wrapping a function of the calling
  code; closures are numbered in the order of their creation; and a name that
  \<open>Object.prototype\<close> defines never becomes an own key.
\<close>

fun adapter_for :: "string \<Rightarrow> nat \<Rightarrow> listener \<Rightarrow> bool" where
  "adapter_for key c (Fn n) = True"
| "adapter_for key c (OnceWrapper k eventName listener) =
     (eventName = key \<and> k < c \<and> (case listener of Fn n \<Rightarrow> True | OnceWrapper k' e' l' \<Rightarrow> False))"

definition well_formed :: "'a world \<Rightarrow> bool" where
  "well_formed w \<longleftrightarrow>
     (\<forall>key ls. events w key = Some ls \<longrightarrow>
        Object_prototype key = None \<and> list_all (adapter_for key (closures w)) ls)"

definition em_wf :: "'a emitter \<Rightarrow> bool" where
  "em_wf em \<longleftrightarrow> (\<forall>d w e args w'. well_formed w \<longrightarrow> final (em d w e args) = Some w' \<longrightarrow> well_formed w')"

text \<open>The invariant of the registry: no key is mapped to an empty sequence.\<close>

definition nonempty_entries :: "'a world \<Rightarrow> bool" where
  "nonempty_entries w \<longleftrightarrow> (\<forall>key ls. events w key = Some ls \<longrightarrow> ls \<noteq> [])"

text \<open>
  Functions of the calling code that only register and remove listeners, under names
  that \<open>Object.prototype\<close> does not define: they neither call \<open>emit\<close> nor throw.
\<close>

fun mutator :: "'a action \<Rightarrow> bool" where
  "mutator (CallOn eventName n) = (Object_prototype eventName = None)"
| "mutator (CallOff eventName l) = (l = None \<or> Object_prototype eventName = None)"
| "mutator (CallOnce eventName n) = (Object_prototype eventName = None)"
| "mutator (CallEmit eventName args) = False"
| "mutator (Throw x) = False"

definition mutators :: "'a program \<Rightarrow> bool" where
  "mutators P \<longleftrightarrow> (\<forall>n args v. list_all mutator (P n args v))"

text \<open>Functions of the calling code that never call \<open>emit\<close>.\<close>

fun calls_emit :: "'a action \<Rightarrow> bool" where
  "calls_emit (CallEmit eventName args) = True"
| "calls_emit a = False"

text \<open>
  Listeners that do not mutate the registry entry of \<open>e'\<close>: functions of the calling
  code that call neither \<open>on\<close>, \<open>off\<close> nor \<open>once\<close>, and that do not call \<open>emit(e')\<close>
  while a \<open>once\<close> adapter (which removes itself) is registered for \<open>e'\<close>.
\<close>

fun plain :: "listener \<Rightarrow> bool" where
  "plain (Fn n) = True"
| "plain (OnceWrapper k eventName listener) = False"

definition entry_plain :: "listener list option \<Rightarrow> bool" where
  "entry_plain X = (case X of None \<Rightarrow> True | Some ls \<Rightarrow> list_all plain ls)"

fun onlooker :: "bool \<Rightarrow> string \<Rightarrow> 'a action \<Rightarrow> bool" where
  "onlooker ok e' (CallOn eventName n) = False"
| "onlooker ok e' (CallOff eventName l) = False"
| "onlooker ok e' (CallOnce eventName n) = False"
| "onlooker ok e' (CallEmit eventName args) = (ok \<or> eventName \<noteq> e')"
| "onlooker ok e' (Throw x) = True"

definition em_frame :: "string \<Rightarrow> listener list option \<Rightarrow> 'a emitter \<Rightarrow> bool" where
  "em_frame e' X em \<longleftrightarrow>
     (\<forall>d w e args w'. well_formed w \<longrightarrow> events w e' = X \<longrightarrow> (entry_plain X \<or> e \<noteq> e') \<longrightarrow>
        final (em d w e args) = Some w' \<longrightarrow> events w' e' = X)"

text \<open>
  Runs without a targeted \<open>off\<close>: no \<open>once\<close> adapter is registered (an adapter calls
  \<open>off(eventName, onceWrapper)\<close> when it fires), and the functions of the calling code
  call neither \<open>off(e, f)\<close> nor \<open>once\<close>.
\<close>

definition all_plain :: "'a world \<Rightarrow> bool" where
  "all_plain w \<longleftrightarrow> (\<forall>key ls. events w key = Some ls \<longrightarrow> list_all plain ls)"

fun gentle :: "'a action \<Rightarrow> bool" where
  "gentle (CallOn eventName n) = True"
| "gentle (CallOff eventName l) = (l = None)"
| "gentle (CallOnce eventName n) = False"
| "gentle (CallEmit eventName args) = True"
| "gentle (Throw x) = True"

definition em_keeps :: "'a emitter \<Rightarrow> bool" where
  "em_keeps em \<longleftrightarrow>
     (\<forall>d w e args w'. nonempty_entries w \<and> all_plain w \<longrightarrow> final (em d w e args) = Some w' \<longrightarrow>
        nonempty_entries w' \<and> all_plain w')"


section \<open>Example worlds and programs\<close>

text \<open>
  The worlds and programs at which the theorems below are instantiated: registries with
  two and three listeners, and one where the same function is registered twice; a
  program whose function 0 registers a listener and whose function 1 removes one; a
  program whose function 1 throws, and one where every function throws; the worlds
  before and after a \<open>once\<close> listener fires, with a listener that does nothing and with
  one that registers a listener under another name; a registry emptied by a targeted
  \<open>off\<close>; a program whose functions call \<open>emit('x', ...)\<close> the first time they run; a
  registry with \<open>once\<close> adapters under two names; and a listener for \<open>'x'\<close> that calls
  \<open>emit('y', ...)\<close>, with a \<open>once\<close> adapter registered for \<open>'y'\<close>.
\<close>

definition fresh_emitter :: "nat world" where
  "fresh_emitter = new_BareEmitter"

definition inert :: "nat program" where
  "inert n args w = []"

definition two_listeners :: "nat world" where
  "two_listeners = \<lparr>events = [''x'' \<mapsto> [Fn 0, Fn 1]], closures = 0, calls = []\<rparr>"

definition registered_twice :: "nat world" where
  "registered_twice = \<lparr>events = [''x'' \<mapsto> [Fn 0, Fn 1, Fn 0]], closures = 0, calls = []\<rparr>"

definition three_listeners :: "nat world" where
  "three_listeners = \<lparr>events = [''x'' \<mapsto> [Fn 0, Fn 1, Fn 2]], closures = 0, calls = []\<rparr>"

definition adds_and_removes :: "nat program" where
  "adds_and_removes n args w =
     (if n = 0 then [CallOn ''x'' 3] else if n = 1 then [CallOff ''x'' (Some 2)] else [])"

definition second_throws :: "nat program" where
  "second_throws n args w = (if n = 1 then [Throw 42] else [])"

definition once_registered :: "nat world" where
  "once_registered =
     \<lparr>events = [''y'' \<mapsto> [OnceWrapper 0 ''y'' (Fn 0)]], closures = Suc 0, calls = []\<rparr>"

definition once_fired :: "nat world" where
  "once_fired =
     \<lparr>events = [''y'' \<mapsto> []], closures = Suc 0,
      calls = [(0, OnceWrapper 0 ''y'' (Fn 0), [5]), (Suc 0, Fn 0, [5])]\<rparr>"

definition z_registered :: "nat world" where
  "z_registered = \<lparr>events = [''z'' \<mapsto> [Fn 0]], closures = 0, calls = []\<rparr>"

definition z_emptied :: "nat world" where
  "z_emptied = \<lparr>events = [''z'' \<mapsto> []], closures = 0, calls = []\<rparr>"

definition reenters :: "nat program" where
  "reenters n args w =
     (if length (filter (\<lambda>c. fst (snd c) = Fn n) (calls w)) \<le> 1 then [CallEmit ''x'' args] else [])"

definition adapters_and_emits :: "nat world" where
  "adapters_and_emits =
     \<lparr>events = [''x'' \<mapsto> [OnceWrapper 0 ''x'' (Fn 0), Fn 1], ''y'' \<mapsto> [OnceWrapper 1 ''y'' (Fn 2)]],
      closures = 2, calls = []\<rparr>"

definition emits_z :: "nat program" where
  "emits_z n args w = (if n = 1 then [CallEmit ''z'' []] else [])"

definition registers_more :: "nat program" where
  "registers_more n args w = (if n = 0 then [CallOn ''z'' 1] else [])"




definition relays :: "nat program" where
  "relays n args w = (if n = 0 then [CallEmit ''y'' args] else [])"

definition relay_world :: "nat world" where
  "relay_world =
     \<lparr>events = [''x'' \<mapsto> [Fn 0], ''y'' \<mapsto> [OnceWrapper 0 ''y'' (Fn 1)]], closures = Suc 0, calls = []\<rparr>"

definition relay_fired :: "nat world" where
  "relay_fired =
     \<lparr>events = [''x'' \<mapsto> [Fn 0], ''y'' \<mapsto> []], closures = Suc 0,
      calls = [(0, Fn 0, [7]), (Suc 0, OnceWrapper 0 ''y'' (Fn 1), [7]), (Suc (Suc 0), Fn 1, [7])]\<rparr>"

section \<open>Basic facts\<close>

subsection \<open>The methods, case by case\<close>

lemma final_simps [simp]:
  "final OutOfFuel = None" "final (Throws x w) = Some w" "final (Returns r w) = Some w"
  by (simp_all add: final_def)

lemma on_eq:
  "on w e l =
     (case events w e of
        Some ls \<Rightarrow> Returns () (w\<lparr>events := (events w)(e \<mapsto> ls @ [l])\<rparr>)
      | None \<Rightarrow>
          (case Object_prototype e of
             None \<Rightarrow> Returns () (w\<lparr>events := (events w)(e \<mapsto> [l])\<rparr>)
           | Some p \<Rightarrow> Throws TypeError w))"
  by (simp add: on_def get_def Let_def split: option.splits)

lemma off_eq:
  "off w e lo =
     (case events w e of
        Some ls \<Rightarrow>
          (case lo of
             Some l \<Rightarrow> Returns () (w\<lparr>events := (events w)(e \<mapsto> filter (\<lambda>fn. fn \<noteq> l) ls)\<rparr>)
           | None \<Rightarrow> Returns () (w\<lparr>events := (events w)(e := None)\<rparr>))
      | None \<Rightarrow>
          (case Object_prototype e of
             None \<Rightarrow> Returns () w
           | Some p \<Rightarrow> (case lo of Some l \<Rightarrow> Throws TypeError w | None \<Rightarrow> Returns () w)))"
  by (auto simp add: off_def get_def fun_upd_idem split: option.splits)

lemma once_eq:
  "once w e l = on (w\<lparr>closures := Suc (closures w)\<rparr>) e (OnceWrapper (closures w) e l)"
  by (simp add: once_def Let_def)

subsection \<open>The record of calls only grows, with calls of the frames below\<close>

lemma ext_refl [simp]: "ext d w w"
  by (simp add: ext_def)

lemma ext_same: "calls w' = calls w \<Longrightarrow> ext d w w'"
  by (simp add: ext_def)

lemma ext_trans: "ext d w w' \<Longrightarrow> ext d w' w'' \<Longrightarrow> ext d w w''"
  by (auto simp add: ext_def)

lemma deeper_calls: "list_all (\<lambda>c. Suc d \<le> fst c) cs \<Longrightarrow> list_all (\<lambda>c. d \<le> fst c) cs"
  by (induction cs) auto

lemma deeper_not_direct: "list_all (\<lambda>c. Suc d \<le> fst c) cs \<Longrightarrow> filter (\<lambda>c. fst c = d) cs = []"
  by (induction cs) auto

lemma ext_Suc: "ext (Suc d) w w' \<Longrightarrow> ext d w w'"
  by (auto simp add: ext_def dest: deeper_calls)

lemma on_calls: "final (on w e l) = Some w' \<Longrightarrow> calls w' = calls w"
  by (auto simp add: on_eq split: option.splits)

lemma off_calls: "final (off w e lo) = Some w' \<Longrightarrow> calls w' = calls w"
  by (auto simp add: off_eq split: option.splits)

lemma once_calls: "final (once w e l) = Some w' \<Longrightarrow> calls w' = calls w"
  by (auto simp add: once_eq dest: on_calls)

lemma perform_ext:
  assumes "em_ok em" and "final (perform em d a w) = Some w'"
  shows "ext d w w'"
proof (cases a)
  case (CallEmit e args)
  with assms(2) have "final (em d w e args) = Some w'"
    by (auto simp add: perform_def split: outcome.splits)
  with assms(1) show ?thesis by (auto simp add: em_ok_def)
qed (use assms(2) in \<open>auto simp add: perform_def intro!: ext_same dest: on_calls off_calls once_calls\<close>)

lemma run_ext:
  "em_ok em \<Longrightarrow> final (run em d as w) = Some w' \<Longrightarrow> ext d w w'"
proof (induction as arbitrary: w)
  case Nil
  then show ?case by simp
next
  case (Cons a as)
  show ?case
  proof (cases "perform em d a w")
    case OutOfFuel
    with Cons.prems show ?thesis by simp
  next
    case (Throws x w1)
    with Cons.prems have "final (perform em d a w) = Some w'" by simp
    with Cons.prems(1) show ?thesis by (rule perform_ext)
  next
    case (Returns u w1)
    then have "final (perform em d a w) = Some w1" by simp
    with Cons.prems(1) have "ext d w w1" by (rule perform_ext)
    moreover from Returns Cons.prems have "ext d w1 w'"
      by (auto intro: Cons.IH)
    ultimately show ?thesis by (rule ext_trans)
  qed
qed

lemma invoke_calls:
  "em_ok em \<Longrightarrow> final (invoke em P d l args w) = Some w' \<Longrightarrow>
   \<exists>rest. calls w' = calls w @ (d, l, args) # rest \<and> list_all (\<lambda>c. Suc d \<le> fst c) rest"
proof (induction l arbitrary: d w w')
  case (Fn n)
  then have "ext (Suc d) (w\<lparr>calls := calls w @ [(d, Fn n, args)]\<rparr>) w'"
    by (auto simp add: Let_def intro: run_ext)
  then show ?case by (auto simp add: ext_def dest: deeper_calls)
next
  case (OnceWrapper k e f)
  let ?w1 = "w\<lparr>calls := calls w @ [(d, OnceWrapper k e f, args)]\<rparr>"
  obtain w2 where w2: "final (invoke em P (Suc d) f args ?w1) = Some w2" "calls w' = calls w2"
    using OnceWrapper.prems(2) by (auto split: outcome.splits dest: off_calls)
  from OnceWrapper.IH [OF OnceWrapper.prems(1) w2(1)] obtain rest where
    "calls w2 = calls ?w1 @ (Suc d, f, args) # rest" "list_all (\<lambda>c. Suc (Suc d) \<le> fst c) rest"
    by blast
  with w2(2) show ?case by (auto dest: deeper_calls)
qed

lemma invoke_ext:
  "em_ok em \<Longrightarrow> final (invoke em P d l args w) = Some w' \<Longrightarrow> ext d w w'"
  by (drule (1) invoke_calls) (auto simp add: ext_def dest: deeper_calls)

lemma forEach_Returns_calls:
  "em_ok em \<Longrightarrow> forEach em P d ls args w = Returns u w' \<Longrightarrow>
   \<exists>new. calls w' = calls w @ new \<and> list_all (\<lambda>c. d \<le> fst c) new \<and>
         map snd (filter (\<lambda>c. fst c = d) new) = map (\<lambda>l. (l, args)) ls"
proof (induction ls arbitrary: w)
  case Nil
  then show ?case by simp
next
  case (Cons l ls)
  from Cons.prems(2) obtain u1 w1 where
    w1: "invoke em P d l args w = Returns u1 w1" "forEach em P d ls args w1 = Returns u w'"
    by (auto split: outcome.splits)
  from w1(1) have "final (invoke em P d l args w) = Some w1" by simp
  from invoke_calls [OF Cons.prems(1) this] obtain rest where
    rest: "calls w1 = calls w @ (d, l, args) # rest" "list_all (\<lambda>c. Suc d \<le> fst c) rest"
    by blast
  from Cons.IH [OF Cons.prems(1) w1(2)] obtain new where
    new: "calls w' = calls w1 @ new" "list_all (\<lambda>c. d \<le> fst c) new"
      "map snd (filter (\<lambda>c. fst c = d) new) = map (\<lambda>l. (l, args)) ls"
    by blast
  from rest(2) have "filter (\<lambda>c. fst c = d) rest = []" "list_all (\<lambda>c. d \<le> fst c) rest"
    by (auto dest: deeper_not_direct deeper_calls)
  with rest new show ?case
    by auto
qed

lemma forEach_Throws_calls:
  "em_ok em \<Longrightarrow> forEach em P d ls args w = Throws x w' \<Longrightarrow>
   \<exists>new k. calls w' = calls w @ new \<and> list_all (\<lambda>c. d \<le> fst c) new \<and> k < length ls \<and>
         map snd (filter (\<lambda>c. fst c = d) new) = map (\<lambda>l. (l, args)) (take (Suc k) ls)"
proof (induction ls arbitrary: w)
  case Nil
  then show ?case by simp
next
  case (Cons l ls)
  show ?case
  proof (cases "invoke em P d l args w")
    case OutOfFuel
    with Cons.prems(2) show ?thesis by simp
  next
    case (Throws y w1)
    with Cons.prems(2) have "final (invoke em P d l args w) = Some w'" by simp
    from invoke_calls [OF Cons.prems(1) this] obtain rest where
      rest: "calls w' = calls w @ (d, l, args) # rest" "list_all (\<lambda>c. Suc d \<le> fst c) rest"
      by blast
    from rest(2) have "filter (\<lambda>c. fst c = d) rest = []" "list_all (\<lambda>c. d \<le> fst c) rest"
      by (auto dest: deeper_not_direct deeper_calls)
    with rest have "calls w' = calls w @ ((d, l, args) # rest) \<and>
        list_all (\<lambda>c. d \<le> fst c) ((d, l, args) # rest) \<and> 0 < length (l # ls) \<and>
        map snd (filter (\<lambda>c. fst c = d) ((d, l, args) # rest)) = map (\<lambda>l. (l, args)) (take (Suc 0) (l # ls))"
      by auto
    then show ?thesis by blast
  next
    case (Returns u1 w1)
    with Cons.prems(2) have w1: "forEach em P d ls args w1 = Throws x w'" by simp
    from Returns have "final (invoke em P d l args w) = Some w1" by simp
    from invoke_calls [OF Cons.prems(1) this] obtain rest where
      rest: "calls w1 = calls w @ (d, l, args) # rest" "list_all (\<lambda>c. Suc d \<le> fst c) rest"
      by blast
    from Cons.IH [OF Cons.prems(1) w1] obtain new k where
      new: "calls w' = calls w1 @ new" "list_all (\<lambda>c. d \<le> fst c) new" "k < length ls"
        "map snd (filter (\<lambda>c. fst c = d) new) = map (\<lambda>l. (l, args)) (take (Suc k) ls)"
      by blast
    from rest(2) have "filter (\<lambda>c. fst c = d) rest = []" "list_all (\<lambda>c. d \<le> fst c) rest"
      by (auto dest: deeper_not_direct deeper_calls)
    with rest new have "calls w' = calls w @ ((d, l, args) # rest @ new) \<and>
        list_all (\<lambda>c. d \<le> fst c) ((d, l, args) # rest @ new) \<and> Suc k < length (l # ls) \<and>
        map snd (filter (\<lambda>c. fst c = d) ((d, l, args) # rest @ new)) = map (\<lambda>l. (l, args)) (take (Suc (Suc k)) (l # ls))"
      by auto
    then show ?thesis by blast
  qed
qed

lemma forEach_ext:
  "em_ok em \<Longrightarrow> final (forEach em P d ls args w) = Some w' \<Longrightarrow> ext d w w'"
  by (cases "forEach em P d ls args w")
    (auto simp add: ext_def dest: forEach_Returns_calls forEach_Throws_calls)

lemma emit_body_ext:
  assumes "em_ok em" and "final (emit_body em P d w e args) = Some w'"
  shows "ext d w w'"
proof (cases "get w e")
  case (Own ls)
  show ?thesis
  proof (cases "length ls = 0")
    case True
    with Own assms(2) show ?thesis by (simp add: emit_body_def)
  next
    case False
    with Own assms(2) have "final (forEach em P d ls args w) = Some w'"
      by (auto simp add: emit_body_def split: outcome.splits)
    with assms(1) show ?thesis by (rule forEach_ext)
  qed
qed (use assms(2) in \<open>auto simp add: emit_body_def split: if_splits\<close>)

lemma emit_body_ok: "em_ok em \<Longrightarrow> em_ok (emit_body em P)"
  unfolding em_ok_def [of "emit_body em P"] by (blast intro: emit_body_ext)

lemma emit_ok: "em_ok (emit P fuel)"
  by (induction fuel) (simp_all add: emit_body_ok, simp add: em_ok_def)

subsection \<open>Well-formed worlds stay well-formed\<close>

lemma adapter_for_Suc: "adapter_for key c l \<Longrightarrow> adapter_for key (Suc c) l"
  by (cases l) auto

lemma adapters_Suc: "list_all (adapter_for key c) ls \<Longrightarrow> list_all (adapter_for key (Suc c)) ls"
  by (induction ls) (auto intro: adapter_for_Suc)

lemma adapters_filter: "list_all (adapter_for key c) ls \<Longrightarrow> list_all (adapter_for key c) (filter p ls)"
  by (induction ls) auto

lemma wf_calls [simp]: "well_formed (w\<lparr>calls := cs\<rparr>) = well_formed w"
  by (simp add: well_formed_def)

lemma wf_new: "well_formed new_BareEmitter"
  by (simp add: well_formed_def new_BareEmitter_def)

lemma wf_on:
  assumes "well_formed w" and "adapter_for e (closures w) l" and "final (on w e l) = Some w'"
  shows "well_formed w'"
proof (cases "events w e")
  case None
  show ?thesis
  proof (cases "Object_prototype e")
    case None
    with \<open>events w e = None\<close> assms(3) have "w' = w\<lparr>events := (events w)(e \<mapsto> [l])\<rparr>"
      by (simp add: on_eq)
    with assms(1,2) None show ?thesis by (simp add: well_formed_def)
  next
    case (Some p)
    with \<open>events w e = None\<close> assms(3) have "w' = w" by (simp add: on_eq)
    with assms(1) show ?thesis by simp
  qed
next
  case (Some ls)
  with assms(3) have "w' = w\<lparr>events := (events w)(e \<mapsto> ls @ [l])\<rparr>"
    by (simp add: on_eq)
  with assms(1,2) Some show ?thesis by (simp add: well_formed_def)
qed

lemma wf_closures: "well_formed w \<Longrightarrow> well_formed (w\<lparr>closures := Suc (closures w)\<rparr>)"
  by (auto simp add: well_formed_def intro: adapters_Suc)

lemma wf_once:
  assumes "well_formed w" and "final (once w e (Fn n)) = Some w'"
  shows "well_formed w'"
proof -
  let ?w1 = "w\<lparr>closures := Suc (closures w)\<rparr>"
  have "well_formed ?w1" using assms(1) by (rule wf_closures)
  moreover have "adapter_for e (closures ?w1) (OnceWrapper (closures w) e (Fn n))" by simp
  moreover have "final (on ?w1 e (OnceWrapper (closures w) e (Fn n))) = Some w'"
    using assms(2) by (simp add: once_eq)
  ultimately show ?thesis by (rule wf_on)
qed

lemma wf_off:
  assumes "well_formed w" and "final (off w e lo) = Some w'"
  shows "well_formed w'"
proof (cases "events w e")
  case None
  with assms(2) have "w' = w" by (auto simp add: off_eq split: option.splits)
  with assms(1) show ?thesis by simp
next
  case (Some ls)
  show ?thesis
  proof (cases lo)
    case None
    with Some assms(2) have "w' = w\<lparr>events := (events w)(e := None)\<rparr>"
      by (simp add: off_eq)
    with assms(1) show ?thesis by (simp add: well_formed_def)
  next
    case (Some l)
    with \<open>events w e = Some ls\<close> assms(2)
    have "w' = w\<lparr>events := (events w)(e \<mapsto> filter (\<lambda>fn. fn \<noteq> l) ls)\<rparr>"
      by (simp add: off_eq)
    with assms(1) \<open>events w e = Some ls\<close> show ?thesis
      by (auto simp add: well_formed_def intro: adapters_filter)
  qed
qed

lemma perform_wf:
  assumes "em_wf em" and "well_formed w" and "final (perform em d a w) = Some w'"
  shows "well_formed w'"
proof (cases a)
  case (CallOn e n)
  with assms(3) have "final (on w e (Fn n)) = Some w'" by (simp add: perform_def)
  with assms(2) show ?thesis using wf_on [of w e "Fn n" w'] by simp
next
  case (CallOff e l)
  with assms(3) have "final (off w e (map_option Fn l)) = Some w'" by (simp add: perform_def)
  with assms(2) show ?thesis by (rule wf_off)
next
  case (CallOnce e n)
  with assms(3) have "final (once w e (Fn n)) = Some w'" by (simp add: perform_def)
  with assms(2) show ?thesis by (rule wf_once)
next
  case (CallEmit e args)
  with assms(3) have "final (em d w e args) = Some w'"
    by (auto simp add: perform_def split: outcome.splits)
  with assms(1,2) show ?thesis by (auto simp add: em_wf_def)
next
  case (Throw x)
  with assms(2,3) show ?thesis by (simp add: perform_def)
qed

lemma run_wf:
  "em_wf em \<Longrightarrow> well_formed w \<Longrightarrow> final (run em d as w) = Some w' \<Longrightarrow> well_formed w'"
proof (induction as arbitrary: w)
  case Nil
  then show ?case by simp
next
  case (Cons a as)
  show ?case
  proof (cases "perform em d a w")
    case OutOfFuel
    with Cons.prems show ?thesis by simp
  next
    case (Throws x w1)
    with Cons.prems have "final (perform em d a w) = Some w'" by simp
    with Cons.prems(1,2) show ?thesis by (rule perform_wf)
  next
    case (Returns u w1)
    then have "final (perform em d a w) = Some w1" by simp
    with Cons.prems(1,2) have "well_formed w1" by (rule perform_wf)
    with Returns Cons.prems show ?thesis by (auto intro: Cons.IH)
  qed
qed

lemma invoke_wf:
  "em_wf em \<Longrightarrow> well_formed w \<Longrightarrow> final (invoke em P d l args w) = Some w' \<Longrightarrow> well_formed w'"
proof (induction l arbitrary: d w w')
  case (Fn n)
  then show ?case
    by (auto simp add: Let_def intro: run_wf [where w = "w\<lparr>calls := calls w @ [(d, Fn n, args)]\<rparr>"])
next
  case (OnceWrapper k e f)
  let ?w1 = "w\<lparr>calls := calls w @ [(d, OnceWrapper k e f, args)]\<rparr>"
  show ?case
  proof (cases "invoke em P (Suc d) f args ?w1")
    case OutOfFuel
    with OnceWrapper.prems show ?thesis by simp
  next
    case (Throws x w2)
    with OnceWrapper.prems have "final (invoke em P (Suc d) f args ?w1) = Some w'" by simp
    with OnceWrapper.prems(1,2) show ?thesis using OnceWrapper.IH [of ?w1 "Suc d" w'] by simp
  next
    case (Returns u w2)
    then have "final (invoke em P (Suc d) f args ?w1) = Some w2" by simp
    with OnceWrapper.prems(1,2) have "well_formed w2" using OnceWrapper.IH [of ?w1 "Suc d" w2] by simp
    moreover from Returns OnceWrapper.prems(3)
    have "final (off w2 e (Some (OnceWrapper k e f))) = Some w'" by simp
    ultimately show ?thesis by (rule wf_off)
  qed
qed

lemma forEach_wf:
  "em_wf em \<Longrightarrow> well_formed w \<Longrightarrow> final (forEach em P d ls args w) = Some w' \<Longrightarrow> well_formed w'"
proof (induction ls arbitrary: w)
  case Nil
  then show ?case by simp
next
  case (Cons l ls)
  show ?case
  proof (cases "invoke em P d l args w")
    case OutOfFuel
    with Cons.prems show ?thesis by simp
  next
    case (Throws x w1)
    with Cons.prems have "final (invoke em P d l args w) = Some w'" by simp
    with Cons.prems(1,2) show ?thesis by (rule invoke_wf)
  next
    case (Returns u w1)
    then have "final (invoke em P d l args w) = Some w1" by simp
    with Cons.prems(1,2) have "well_formed w1" by (rule invoke_wf)
    with Returns Cons.prems show ?thesis by (auto intro: Cons.IH)
  qed
qed

lemma emit_body_wf:
  assumes "em_wf em" and "well_formed w" and "final (emit_body em P d w e args) = Some w'"
  shows "well_formed w'"
proof (cases "get w e")
  case (Own ls)
  show ?thesis
  proof (cases "length ls = 0")
    case True
    with Own assms(2,3) show ?thesis by (simp add: emit_body_def)
  next
    case False
    with Own assms(3) have "final (forEach em P d ls args w) = Some w'"
      by (auto simp add: emit_body_def split: outcome.splits)
    with assms(1,2) show ?thesis by (rule forEach_wf)
  qed
qed (use assms(2,3) in \<open>auto simp add: emit_body_def split: if_splits\<close>)

lemma emit_wf: "em_wf (emit P fuel)"
proof (induction fuel)
  case 0
  show ?case by (simp add: em_wf_def)
next
  case (Suc fuel)
  then show ?case
    unfolding em_wf_def [of "emit P (Suc fuel)"] by (auto intro: emit_body_wf)
qed

subsection \<open>Functions that only register and remove listeners return\<close>

lemma mutator_perform: "mutator a \<Longrightarrow> \<exists>w'. perform em d a w = Returns () w'"
  by (cases a) (auto simp add: perform_def on_eq off_eq once_eq split: option.splits)

lemma run_mutators: "list_all mutator as \<Longrightarrow> \<exists>w'. run em d as w = Returns () w'"
proof (induction as arbitrary: w)
  case Nil
  then show ?case by simp
next
  case (Cons a as)
  then obtain w1 where "perform em d a w = Returns () w1"
    using mutator_perform [of a em d w] by auto
  with Cons show ?case by simp
qed

lemma invoke_mutators:
  assumes "mutators P" and "adapter_for key c l" and "Object_prototype key = None"
  shows "\<exists>w'. invoke em P d l args w = Returns () w'"
proof (cases l)
  case (Fn n)
  with assms(1) show ?thesis by (simp add: mutators_def run_mutators Let_def)
next
  case (OnceWrapper k e f)
  with assms(2) obtain n where f: "f = Fn n" and e: "e = key" by (cases f) auto
  let ?w2 = "w\<lparr>calls := calls w @ [(d, OnceWrapper k e (Fn n), args), (Suc d, Fn n, args)]\<rparr>"
  from assms(1) have "list_all mutator (P n args ?w2)" by (simp add: mutators_def)
  from run_mutators [OF this] obtain w1 where
    "run em (Suc (Suc d)) (P n args ?w2) ?w2 = Returns () w1"
    by blast
  with OnceWrapper f e assms(3) show ?thesis
    by (auto simp add: off_eq Let_def split: option.splits)
qed

lemma forEach_mutators:
  "mutators P \<Longrightarrow> list_all (adapter_for key c) ls \<Longrightarrow> Object_prototype key = None \<Longrightarrow>
   \<exists>w'. forEach em P d ls args w = Returns () w'"
proof (induction ls arbitrary: w)
  case Nil
  then show ?case by simp
next
  case (Cons l ls)
  then obtain w1 where "invoke em P d l args w = Returns () w1"
    using invoke_mutators [of P key c l em d args w] by auto
  with Cons show ?case by simp
qed

lemma emit_mutators:
  assumes "mutators P" and "well_formed w" and "events w e = Some ls"
  shows "\<exists>w'. emit P (Suc fuel) d w e args = Returns (ls \<noteq> []) w'"
proof (cases "ls = []")
  case True
  with assms(3) show ?thesis by (simp add: emit_body_def get_def)
next
  case False
  from assms(2,3) have "list_all (adapter_for e (closures w)) ls" "Object_prototype e = None"
    by (auto simp add: well_formed_def)
  with assms(1) obtain w' where "forEach (emit P fuel) P d ls args w = Returns () w'"
    using forEach_mutators by blast
  with False assms(3) show ?thesis by (simp add: emit_body_def get_def)
qed

subsection \<open>The listeners that a call of emit invokes\<close>

lemma since_same [simp]: "since w w = []"
  by (simp add: since_def)

lemma emit_Returns_direct:
  assumes "emit P fuel d w e args = Returns b w'"
  shows "direct d w w' = map (\<lambda>l. (l, args)) (listeners_of w e) \<and> b = (listeners_of w e \<noteq> [])"
proof (cases fuel)
  case 0
  with assms show ?thesis by simp
next
  case (Suc n)
  with assms have body: "emit_body (emit P n) P d w e args = Returns b w'" by simp
  show ?thesis
  proof (cases "events w e")
    case None
    with body have "w' = w" "\<not> b"
      by (auto simp add: emit_body_def get_def split: option.splits if_splits)
    with None show ?thesis by (simp add: direct_def listeners_of_def)
  next
    case (Some ls)
    show ?thesis
    proof (cases "ls = []")
      case True
      with Some body have "w' = w" "\<not> b" by (auto simp add: emit_body_def get_def)
      with Some True show ?thesis by (simp add: direct_def listeners_of_def)
    next
      case False
      with Some body obtain u where "forEach (emit P n) P d ls args w = Returns u w'" and b
        by (auto simp add: emit_body_def get_def split: outcome.splits)
      from forEach_Returns_calls [OF emit_ok this(1)] obtain new where
        "calls w' = calls w @ new" "map snd (filter (\<lambda>c. fst c = d) new) = map (\<lambda>l. (l, args)) ls"
        by blast
      with Some False \<open>b\<close> show ?thesis by (simp add: direct_def since_def listeners_of_def)
    qed
  qed
qed

lemma emit_Throws_direct:
  assumes "emit P fuel d w e args = Throws x w'" and "events w e = Some ls"
  shows "\<exists>k<length ls. direct d w w' = map (\<lambda>l. (l, args)) (take (Suc k) ls)"
proof (cases fuel)
  case 0
  with assms(1) show ?thesis by simp
next
  case (Suc n)
  with assms have "forEach (emit P n) P d ls args w = Throws x w'"
    by (auto simp add: emit_body_def get_def split: if_splits outcome.splits)
  from forEach_Throws_calls [OF emit_ok this] obtain new k where
    "calls w' = calls w @ new" "k < length ls"
    "map snd (filter (\<lambda>c. fst c = d) new) = map (\<lambda>l. (l, args)) (take (Suc k) ls)"
    by blast
  then have "k < length ls \<and> direct d w w' = map (\<lambda>l. (l, args)) (take (Suc k) ls)"
    by (simp add: direct_def since_def)
  then show ?thesis by blast
qed

lemma emit_mutators_total:
  assumes "mutators P" and "well_formed w" and "Object_prototype e = None"
  shows "\<exists>w'. emit P (Suc fuel) d w e args = Returns (listeners_of w e \<noteq> []) w'"
proof (cases "events w e")
  case None
  with assms(3) show ?thesis by (simp add: emit_body_def get_def listeners_of_def)
next
  case (Some ls)
  with emit_mutators [OF assms(1,2) Some] show ?thesis by (simp add: listeners_of_def)
qed

lemma emit_preserves_wf:
  "well_formed w \<Longrightarrow> final (emit P fuel d w e args) = Some w' \<Longrightarrow> well_formed w'"
  using emit_wf [of P fuel] unfolding em_wf_def by blast

lemma emit_extends: "final (emit P fuel d w e args) = Some w' \<Longrightarrow> ext d w w'"
  using emit_ok [of P fuel] unfolding em_ok_def by blast

lemma forEach_append:
  "forEach em P d (xs @ ys) args w =
     (case forEach em P d xs args w of
        OutOfFuel \<Rightarrow> OutOfFuel
      | Throws x w' \<Rightarrow> Throws x w'
      | Returns u w' \<Rightarrow> forEach em P d ys args w')"
  by (induction xs arbitrary: w) (auto split: outcome.splits)

lemma since_append: "calls w' = calls w @ new \<Longrightarrow> since w w' = new"
  by (simp add: since_def)

lemma direct_member:
  assumes "map snd (filter (\<lambda>c. fst c = d) new) = map (\<lambda>l. (l, args)) ls" and "l \<in> set ls"
  shows "(d, l, args) \<in> set new"
proof -
  from assms(2) have "(l, args) \<in> set (map (\<lambda>l. (l, args)) ls)" by auto
  with assms(1) have "(l, args) \<in> set (map snd (filter (\<lambda>c. fst c = d) new))" by simp
  then obtain c where c: "c \<in> set new" "fst c = d" "snd c = (l, args)" by auto
  from c(2,3) have "c = (d, l, args)" by (cases c) simp
  with c(1) show ?thesis by simp
qed

lemma invoke_adapter_calls:
  assumes "em_ok em" and "invoke em P d (OnceWrapper k e f) args w = Returns u w'"
  shows "\<exists>rest. calls w' = calls w @ (d, OnceWrapper k e f, args) # (Suc d, f, args) # rest"
proof -
  let ?w1 = "w\<lparr>calls := calls w @ [(d, OnceWrapper k e f, args)]\<rparr>"
  from assms(2) obtain u2 w2 where
    w2: "invoke em P (Suc d) f args ?w1 = Returns u2 w2"
      "off w2 e (Some (OnceWrapper k e f)) = Returns u w'"
    by (auto split: outcome.splits)
  from w2(1) have "final (invoke em P (Suc d) f args ?w1) = Some w2" by simp
  from invoke_calls [OF assms(1) this] obtain rest where
    "calls w2 = calls ?w1 @ (Suc d, f, args) # rest" by blast
  moreover from w2(2) have "final (off w2 e (Some (OnceWrapper k e f))) = Some w'" by simp
  then have "calls w' = calls w2" by (rule off_calls)
  ultimately show ?thesis by simp
qed

lemma forEach_adapter_calls:
  "em_ok em \<Longrightarrow> forEach em P d ls args w = Returns u w' \<Longrightarrow> OnceWrapper k e f \<in> set ls \<Longrightarrow>
   (Suc d, f, args) \<in> set (since w w')"
proof (induction ls arbitrary: w)
  case Nil
  then show ?case by simp
next
  case (Cons l ls)
  from Cons.prems(2) obtain u1 w1 where
    w1: "invoke em P d l args w = Returns u1 w1" "forEach em P d ls args w1 = Returns u w'"
    by (auto split: outcome.splits)
  from w1(1) have "final (invoke em P d l args w) = Some w1" by simp
  from invoke_calls [OF Cons.prems(1) this] obtain rest where
    rest: "calls w1 = calls w @ (d, l, args) # rest" by blast
  from forEach_Returns_calls [OF Cons.prems(1) w1(2)] obtain new where
    new: "calls w' = calls w1 @ new" by blast
  show ?case
  proof (cases "l = OnceWrapper k e f")
    case True
    with w1(1) invoke_adapter_calls [OF Cons.prems(1)] obtain rest' where
      "calls w1 = calls w @ (d, OnceWrapper k e f, args) # (Suc d, f, args) # rest'"
      by blast
    with new show ?thesis by (simp add: since_def)
  next
    case False
    with Cons.prems(3) have "OnceWrapper k e f \<in> set ls" by simp
    from Cons.IH [OF Cons.prems(1) w1(2) this] have "(Suc d, f, args) \<in> set (since w1 w')" .
    with rest new show ?thesis by (simp add: since_def)
  qed
qed

subsection \<open>Other event names\<close>

lemma on_frame: "e \<noteq> e' \<Longrightarrow> \<exists>w'. final (on w e f) = Some w' \<and> events w' e' = events w e'"
  by (auto simp add: on_eq split: option.splits)

lemma off_frame: "e \<noteq> e' \<Longrightarrow> \<exists>w'. final (off w e lo) = Some w' \<and> events w' e' = events w e'"
  by (auto simp add: off_eq split: option.splits)

lemma once_frame: "e \<noteq> e' \<Longrightarrow> \<exists>w'. final (once w e f) = Some w' \<and> events w' e' = events w e'"
  by (auto simp add: once_eq on_eq split: option.splits)

lemma perform_frame:
  assumes "em_frame e' X em" and "well_formed w" and "events w e' = X"
    and "onlooker (entry_plain X) e' a" and "final (perform em d a w) = Some w'"
  shows "events w' e' = X"
proof (cases a)
  case (CallEmit e args)
  with assms(5) have "final (em d w e args) = Some w'"
    by (auto simp add: perform_def split: outcome.splits)
  moreover from CallEmit assms(4) have "entry_plain X \<or> e \<noteq> e'" by simp
  ultimately show ?thesis using assms(1,2,3) unfolding em_frame_def by blast
next
  case (Throw x)
  with assms(3,5) show ?thesis by (simp add: perform_def)
qed (use assms(4) in simp_all)

lemma run_frame:
  "em_wf em \<Longrightarrow> em_frame e' X em \<Longrightarrow> well_formed w \<Longrightarrow> events w e' = X \<Longrightarrow>
   list_all (onlooker (entry_plain X) e') as \<Longrightarrow> final (run em d as w) = Some w' \<Longrightarrow>
   events w' e' = X"
proof (induction as arbitrary: w)
  case Nil
  then show ?case by simp
next
  case (Cons a as)
  from Cons.prems(5) have a: "onlooker (entry_plain X) e' a" and as: "list_all (onlooker (entry_plain X) e') as"
    by simp_all
  show ?case
  proof (cases "perform em d a w")
    case OutOfFuel
    with Cons.prems show ?thesis by simp
  next
    case (Throws x w1)
    with Cons.prems(6) have "final (perform em d a w) = Some w'" by simp
    with Cons.prems(2,3,4) a show ?thesis by (rule perform_frame)
  next
    case (Returns u w1)
    then have fin: "final (perform em d a w) = Some w1" by simp
    with Cons.prems(1,3) have wf1: "well_formed w1" by (rule perform_wf)
    from Cons.prems(2,3,4) a fin have ev1: "events w1 e' = X" by (rule perform_frame)
    from Returns Cons.prems(6) have "final (run em d as w1) = Some w'" by simp
    with Cons.prems(1,2) wf1 ev1 as show ?thesis by (rule Cons.IH)
  qed
qed

lemma invoke_frame:
  assumes "em_wf em" and "em_frame e' X em"
    and "\<forall>n args v. list_all (onlooker (entry_plain X) e') (P n args v)"
    and "well_formed w" and "events w e' = X"
    and "adapter_for key c l" and "plain l \<or> key \<noteq> e'"
    and "final (invoke em P d l args w) = Some w'"
  shows "events w' e' = X"
proof (cases l)
  case (Fn n)
  let ?w1 = "w\<lparr>calls := calls w @ [(d, Fn n, args)]\<rparr>"
  from assms(4,5) have w1: "well_formed ?w1" "events ?w1 e' = X" by simp_all
  from assms(3) have body: "list_all (onlooker (entry_plain X) e') (P n args ?w1)" by simp
  from Fn assms(8) have "final (run em (Suc d) (P n args ?w1) ?w1) = Some w'" by (simp add: Let_def)
  with assms(1,2) w1 body show ?thesis by (rule run_frame)
next
  case (OnceWrapper k e f)
  with assms(6,7) obtain n where f: "f = Fn n" and e: "e = key" "key \<noteq> e'"
    by (cases f) auto
  let ?w2 = "w\<lparr>calls := calls w @ [(d, OnceWrapper k e (Fn n), args), (Suc d, Fn n, args)]\<rparr>"
  from assms(4,5) have w2: "well_formed ?w2" "events ?w2 e' = X" by simp_all
  from assms(3) have body: "list_all (onlooker (entry_plain X) e') (P n args ?w2)" by simp
  show ?thesis
  proof (cases "run em (Suc (Suc d)) (P n args ?w2) ?w2")
    case OutOfFuel
    with OnceWrapper f assms(8) show ?thesis by (simp add: Let_def)
  next
    case (Throws x w3)
    with OnceWrapper f assms(8) have "final (run em (Suc (Suc d)) (P n args ?w2) ?w2) = Some w'"
      by (simp add: Let_def)
    with assms(1,2) w2 body show ?thesis by (rule run_frame)
  next
    case (Returns u w3)
    then have fin: "final (run em (Suc (Suc d)) (P n args ?w2) ?w2) = Some w3" by simp
    with assms(1,2) w2 body have "events w3 e' = X" by (rule run_frame)
    moreover from Returns OnceWrapper f assms(8)
    have "final (off w3 e (Some (OnceWrapper k e (Fn n)))) = Some w'" by (simp add: Let_def)
    with e off_frame [of e e' w3 "Some (OnceWrapper k e (Fn n))"]
    have "events w' e' = events w3 e'" by auto
    ultimately show ?thesis by simp
  qed
qed

lemma forEach_frame:
  "em_wf em \<Longrightarrow> em_frame e' X em \<Longrightarrow>
   \<forall>n args v. list_all (onlooker (entry_plain X) e') (P n args v) \<Longrightarrow>
   well_formed w \<Longrightarrow> events w e' = X \<Longrightarrow>
   list_all (adapter_for key c) ls \<Longrightarrow> list_all plain ls \<or> key \<noteq> e' \<Longrightarrow>
   final (forEach em P d ls args w) = Some w' \<Longrightarrow> events w' e' = X"
proof (induction ls arbitrary: w)
  case Nil
  then show ?case by simp
next
  case (Cons l ls)
  from Cons.prems(6,7) have l: "adapter_for key c l" "plain l \<or> key \<noteq> e'"
    and ls: "list_all (adapter_for key c) ls" "list_all plain ls \<or> key \<noteq> e'"
    by auto
  show ?case
  proof (cases "invoke em P d l args w")
    case OutOfFuel
    with Cons.prems show ?thesis by simp
  next
    case (Throws x w1)
    with Cons.prems(8) have "final (invoke em P d l args w) = Some w'" by simp
    with Cons.prems(1,2,3,4,5) l show ?thesis by (rule invoke_frame)
  next
    case (Returns u w1)
    then have fin: "final (invoke em P d l args w) = Some w1" by simp
    with Cons.prems(1,4) have wf1: "well_formed w1" by (rule invoke_wf)
    from Cons.prems(1,2,3,4,5) l fin have ev1: "events w1 e' = X" by (rule invoke_frame)
    from Returns Cons.prems(8) have "final (forEach em P d ls args w1) = Some w'" by simp
    with Cons.prems(1,2,3) wf1 ev1 ls show ?thesis by (rule Cons.IH)
  qed
qed

lemma emit_body_frame:
  assumes "em_wf em" and "em_frame e' X em"
    and "\<forall>n args v. list_all (onlooker (entry_plain X) e') (P n args v)"
    and "well_formed w" and "events w e' = X" and "entry_plain X \<or> e \<noteq> e'"
    and "final (emit_body em P d w e args) = Some w'"
  shows "events w' e' = X"
proof (cases "events w e")
  case None
  with assms(7) have "w' = w"
    by (auto simp add: emit_body_def get_def split: option.splits if_splits)
  with assms(5) show ?thesis by simp
next
  case (Some ls)
  show ?thesis
  proof (cases "ls = []")
    case True
    with Some assms(7) have "w' = w" by (simp add: emit_body_def get_def)
    with assms(5) show ?thesis by simp
  next
    case False
    with Some assms(7) have fin: "final (forEach em P d ls args w) = Some w'"
      by (auto simp add: emit_body_def get_def split: outcome.splits)
    from Some assms(4) have ad: "list_all (adapter_for e (closures w)) ls"
      by (simp add: well_formed_def)
    from Some assms(5,6) have "list_all plain ls \<or> e \<noteq> e'"
      by (auto simp add: entry_plain_def)
    with assms(1,2,3,4,5) ad show ?thesis using fin by (rule forEach_frame)
  qed
qed

lemma emit_frame:
  assumes "\<forall>n args v. list_all (onlooker (entry_plain X) e') (P n args v)"
  shows "em_frame e' X (emit P fuel)"
proof (induction fuel)
  case 0
  show ?case by (simp add: em_frame_def)
next
  case (Suc fuel)
  show ?case
    unfolding em_frame_def
  proof (intro allI impI)
    fix d w e args w'
    assume a: "well_formed w" "events w e' = X" "entry_plain X \<or> e \<noteq> e'"
      and fin: "final (emit P (Suc fuel) d w e args) = Some w'"
    from fin have "final (emit_body (emit P fuel) P d w e args) = Some w'" by simp
    with emit_wf Suc assms a show "events w' e' = X" by (rule emit_body_frame)
  qed
qed

lemma emit_leaves_other_entry:
  assumes "\<forall>n args v. list_all (onlooker (entry_plain (events w e')) e') (P n args v)"
    and "well_formed w" and "e \<noteq> e'" and "final (emit P fuel d w e args) = Some w'"
  shows "events w' e' = events w e'"
  using emit_frame [OF assms(1), of fuel] assms(2,3,4) unfolding em_frame_def by blast

subsection \<open>Event names without listeners\<close>

lemma emit_no_listeners:
  assumes "listeners_of w e = []" and "events w e \<noteq> None \<or> Object_prototype e = None"
  shows "emit P (Suc fuel) d w e args = Returns False w"
  using assms by (auto simp add: emit_body_def get_def listeners_of_def split: option.splits)

lemma off_ordinary_name:
  assumes "events w e \<noteq> None \<or> Object_prototype e = None"
  shows "off w e None = Returns () (w\<lparr>events := (events w)(e := None)\<rparr>)"
    and "off w e (Some f) =
      Returns () (w\<lparr>events := (events w)(e := map_option (filter (\<lambda>fn. fn \<noteq> f)) (events w e))\<rparr>)"
  using assms by (auto simp add: off_eq fun_upd_idem split: option.splits)

lemma nonempty_on:
  "nonempty_entries w \<Longrightarrow> final (on w e f) = Some w' \<Longrightarrow> nonempty_entries w'"
  by (auto simp add: on_eq nonempty_entries_def split: option.splits if_splits) blast+

lemma nonempty_closures [simp]: "nonempty_entries (w\<lparr>closures := c\<rparr>) = nonempty_entries w"
  by (simp add: nonempty_entries_def)

lemma nonempty_once:
  "nonempty_entries w \<Longrightarrow> final (once w e f) = Some w' \<Longrightarrow> nonempty_entries w'"
  using nonempty_on [of "w\<lparr>closures := Suc (closures w)\<rparr>" e "OnceWrapper (closures w) e f" w']
  by (simp add: once_eq)

lemma nonempty_off_all:
  "nonempty_entries w \<Longrightarrow>
   \<exists>w'. off w e None = Returns () w' \<and> events w' e = None \<and> nonempty_entries w'"
  by (auto simp add: off_eq nonempty_entries_def split: option.splits if_splits)

subsection \<open>Worlds that the calling code can reach\<close>

lemma reachable_well_formed:
  "final (run (emit P fuel) d script new_BareEmitter) = Some w \<Longrightarrow> well_formed w"
  using emit_wf wf_new by (rule run_wf)

subsection \<open>Without nested emit, every call ends\<close>

lemma on_ends: "final (on w e f) \<noteq> None"
  by (simp add: on_eq split: option.splits)

lemma off_ends: "final (off w e lo) \<noteq> None"
  by (simp add: off_eq split: option.splits)

lemma once_ends: "final (once w e f) \<noteq> None"
  by (simp add: once_eq on_ends)

lemma perform_ends: "\<not> calls_emit a \<Longrightarrow> final (perform em d a w) \<noteq> None"
  by (cases a) (simp_all add: perform_def on_ends off_ends once_ends)

lemma run_ends: "list_all (\<lambda>a. \<not> calls_emit a) as \<Longrightarrow> final (run em d as w) \<noteq> None"
proof (induction as arbitrary: w)
  case Nil
  then show ?case by simp
next
  case (Cons a as)
  then have "final (perform em d a w) \<noteq> None" by (simp add: perform_ends)
  with Cons show ?case by (cases "perform em d a w") simp_all
qed

lemma invoke_ends:
  "\<forall>n args v. list_all (\<lambda>a. \<not> calls_emit a) (P n args v) \<Longrightarrow> final (invoke em P d l args w) \<noteq> None"
proof (induction l arbitrary: d w)
  case (Fn n)
  then show ?case by (simp add: run_ends Let_def)
next
  case (OnceWrapper k e f)
  let ?w1 = "w\<lparr>calls := calls w @ [(d, OnceWrapper k e f, args)]\<rparr>"
  from OnceWrapper have "final (invoke em P (Suc d) f args ?w1) \<noteq> None" by blast
  then show ?case by (cases "invoke em P (Suc d) f args ?w1") (simp_all add: off_ends)
qed

lemma forEach_ends:
  "\<forall>n args v. list_all (\<lambda>a. \<not> calls_emit a) (P n args v) \<Longrightarrow> final (forEach em P d ls args w) \<noteq> None"
proof (induction ls arbitrary: w)
  case Nil
  then show ?case by simp
next
  case (Cons l ls)
  then have "final (invoke em P d l args w) \<noteq> None" by (simp add: invoke_ends)
  with Cons show ?case by (cases "invoke em P d l args w") simp_all
qed

lemma emit_ends:
  assumes "\<forall>n args v. list_all (\<lambda>a. \<not> calls_emit a) (P n args v)"
  shows "final (emit P (Suc fuel) d w e args) \<noteq> None"
proof (cases "get w e")
  case (Own ls)
  from assms have "final (forEach (emit P fuel) P d ls args w) \<noteq> None" by (rule forEach_ends)
  with Own show ?thesis
    by (cases "forEach (emit P fuel) P d ls args w") (simp_all add: emit_body_def)
qed (simp_all add: emit_body_def)

subsection \<open>A once listener that emits its own event\<close>

lemma reemitting_once_listener_never_returns:
  "events w e = Some (OnceWrapper k e (Fn n) # rest) \<Longrightarrow> \<forall>v. P n args v = [CallEmit e args] \<Longrightarrow>
   emit P fuel d w e args = OutOfFuel"
proof (induction fuel arbitrary: d w)
  case 0
  show ?case by simp
next
  case (Suc fuel)
  let ?w2 = "w\<lparr>calls := calls w @ [(d, OnceWrapper k e (Fn n), args), (Suc d, Fn n, args)]\<rparr>"
  from Suc.prems(1) have "events ?w2 e = Some (OnceWrapper k e (Fn n) # rest)" by simp
  from Suc.IH [OF this Suc.prems(2)] have "emit P fuel (Suc (Suc d)) ?w2 e args = OutOfFuel" .
  with Suc.prems show ?case by (simp add: emit_body_def get_def perform_def Let_def)
qed

subsection \<open>Runs without a targeted off keep the entries non-empty\<close>

lemma keeps_calls [simp]:
  "nonempty_entries (w\<lparr>calls := cs\<rparr>) = nonempty_entries w" "all_plain (w\<lparr>calls := cs\<rparr>) = all_plain w"
  by (simp_all add: nonempty_entries_def all_plain_def)

lemma on_keeps:
  assumes "nonempty_entries w \<and> all_plain w" and "final (on w e (Fn n)) = Some w'"
  shows "nonempty_entries w' \<and> all_plain w'"
proof -
  from assms have "nonempty_entries w'" by (blast intro: nonempty_on)
  moreover from assms have "all_plain w'"
    by (auto simp add: on_eq all_plain_def split: option.splits if_splits)
  ultimately show ?thesis by simp
qed

lemma off_all_keeps:
  assumes "nonempty_entries w \<and> all_plain w" and "final (off w e None) = Some w'"
  shows "nonempty_entries w' \<and> all_plain w'"
proof -
  from assms(2) have w': "w' = w\<lparr>events := (events w)(e := None)\<rparr>"
    by (auto simp add: off_eq fun_upd_idem split: option.splits)
  from assms(1) have "\<forall>key ls. events w key = Some ls \<longrightarrow> ls \<noteq> [] \<and> list_all plain ls"
    unfolding nonempty_entries_def all_plain_def by blast
  then show ?thesis
    unfolding w' nonempty_entries_def all_plain_def by (simp split: if_splits)
qed

lemma perform_keeps:
  assumes "em_keeps em" and "nonempty_entries w \<and> all_plain w" and "gentle a"
    and "final (perform em d a w) = Some w'"
  shows "nonempty_entries w' \<and> all_plain w'"
proof (cases a)
  case (CallOn e n)
  with assms(4) have "final (on w e (Fn n)) = Some w'" by (simp add: perform_def)
  with assms(2) show ?thesis by (rule on_keeps)
next
  case (CallOff e l)
  with assms(3,4) have "final (off w e None) = Some w'" by (simp add: perform_def)
  with assms(2) show ?thesis by (rule off_all_keeps)
next
  case (CallOnce e n)
  with assms(3) show ?thesis by simp
next
  case (CallEmit e args)
  with assms(4) have "final (em d w e args) = Some w'"
    by (auto simp add: perform_def split: outcome.splits)
  with assms(1,2) show ?thesis unfolding em_keeps_def by blast
next
  case (Throw x)
  with assms(2,4) show ?thesis by (simp add: perform_def)
qed

lemma run_keeps:
  "em_keeps em \<Longrightarrow> nonempty_entries w \<and> all_plain w \<Longrightarrow> list_all gentle as \<Longrightarrow>
   final (run em d as w) = Some w' \<Longrightarrow> nonempty_entries w' \<and> all_plain w'"
proof (induction as arbitrary: w)
  case Nil
  then show ?case by simp
next
  case (Cons a as)
  from Cons.prems(3) have a: "gentle a" and as: "list_all gentle as" by simp_all
  show ?case
  proof (cases "perform em d a w")
    case OutOfFuel
    with Cons.prems show ?thesis by simp
  next
    case (Throws x w1)
    with Cons.prems(4) have "final (perform em d a w) = Some w'" by simp
    with Cons.prems(1,2) a show ?thesis by (rule perform_keeps)
  next
    case (Returns u w1)
    then have "final (perform em d a w) = Some w1" by simp
    with Cons.prems(1,2) a have k1: "nonempty_entries w1 \<and> all_plain w1" by (rule perform_keeps)
    from Returns Cons.prems(4) have "final (run em d as w1) = Some w'" by simp
    with Cons.prems(1) k1 as show ?thesis by (rule Cons.IH)
  qed
qed

lemma invoke_keeps:
  assumes "em_keeps em" and "nonempty_entries w \<and> all_plain w"
    and "\<forall>n args v. list_all gentle (P n args v)" and "plain l"
    and "final (invoke em P d l args w) = Some w'"
  shows "nonempty_entries w' \<and> all_plain w'"
proof (cases l)
  case (Fn n)
  let ?w1 = "w\<lparr>calls := calls w @ [(d, Fn n, args)]\<rparr>"
  from assms(2) have k1: "nonempty_entries ?w1 \<and> all_plain ?w1" by simp
  from assms(3) have body: "list_all gentle (P n args ?w1)" by simp
  from Fn assms(5) have "final (run em (Suc d) (P n args ?w1) ?w1) = Some w'"
    by (simp add: Let_def)
  with assms(1) k1 body show ?thesis by (rule run_keeps)
next
  case (OnceWrapper k e f)
  with assms(4) show ?thesis by simp
qed

lemma forEach_keeps:
  "em_keeps em \<Longrightarrow> nonempty_entries w \<and> all_plain w \<Longrightarrow>
   \<forall>n args v. list_all gentle (P n args v) \<Longrightarrow> list_all plain ls \<Longrightarrow>
   final (forEach em P d ls args w) = Some w' \<Longrightarrow> nonempty_entries w' \<and> all_plain w'"
proof (induction ls arbitrary: w)
  case Nil
  then show ?case by simp
next
  case (Cons l ls)
  from Cons.prems(4) have l: "plain l" and ls: "list_all plain ls" by simp_all
  show ?case
  proof (cases "invoke em P d l args w")
    case OutOfFuel
    with Cons.prems show ?thesis by simp
  next
    case (Throws x w1)
    with Cons.prems(5) have "final (invoke em P d l args w) = Some w'" by simp
    with Cons.prems(1,2,3) l show ?thesis by (rule invoke_keeps)
  next
    case (Returns u w1)
    then have "final (invoke em P d l args w) = Some w1" by simp
    with Cons.prems(1,2,3) l have k1: "nonempty_entries w1 \<and> all_plain w1" by (rule invoke_keeps)
    from Returns Cons.prems(5) have "final (forEach em P d ls args w1) = Some w'" by simp
    with Cons.prems(1) k1 Cons.prems(3) ls show ?thesis by (rule Cons.IH)
  qed
qed

lemma emit_body_keeps:
  assumes "em_keeps em" and "nonempty_entries w \<and> all_plain w"
    and "\<forall>n args v. list_all gentle (P n args v)"
    and "final (emit_body em P d w e args) = Some w'"
  shows "nonempty_entries w' \<and> all_plain w'"
proof (cases "events w e")
  case None
  with assms(4) have "w' = w"
    by (auto simp add: emit_body_def get_def split: option.splits if_splits)
  with assms(2) show ?thesis by simp
next
  case (Some ls)
  show ?thesis
  proof (cases "ls = []")
    case True
    with Some assms(4) have "w' = w" by (simp add: emit_body_def get_def)
    with assms(2) show ?thesis by simp
  next
    case False
    with Some assms(4) have fin: "final (forEach em P d ls args w) = Some w'"
      by (auto simp add: emit_body_def get_def split: outcome.splits)
    from Some assms(2) have "list_all plain ls" by (simp add: all_plain_def)
    with assms(1,2,3) show ?thesis using fin by (rule forEach_keeps)
  qed
qed

lemma emit_keeps:
  assumes "\<forall>n args v. list_all gentle (P n args v)"
  shows "em_keeps (emit P fuel)"
proof (induction fuel)
  case 0
  show ?case by (simp add: em_keeps_def)
next
  case (Suc fuel)
  show ?case
    unfolding em_keeps_def
  proof (intro allI impI)
    fix d w e args w'
    assume k: "nonempty_entries w \<and> all_plain w"
      and fin: "final (emit P (Suc fuel) d w e args) = Some w'"
    from fin have "final (emit_body (emit P fuel) P d w e args) = Some w'" by simp
    with Suc k assms show "nonempty_entries w' \<and> all_plain w'" by (rule emit_body_keeps)
  qed
qed

lemma emit_keeps_nonempty:
  assumes "\<forall>n args v. list_all gentle (P n args v)" and "nonempty_entries w" and "all_plain w"
    and "final (emit P fuel d w e args) = Some w'"
  shows "nonempty_entries w'"
  using emit_keeps [OF assms(1), of fuel] assms(2,3,4) unfolding em_keeps_def by blast

lemma off_all_drops:
  "\<exists>w'. off w e None = Returns () w' \<and> events w' e = None \<and>
        (\<forall>key. key \<noteq> e \<longrightarrow> events w' key = events w key)"
  by (auto simp add: off_eq split: option.splits)

lemma run_keeps_nonempty:
  assumes "\<forall>n args v. list_all gentle (P n args v)" and "list_all gentle script"
    and "final (run (emit P fuel) d script new_BareEmitter) = Some w'"
  shows "nonempty_entries w'"
proof -
  have "nonempty_entries (new_BareEmitter :: 'a world) \<and> all_plain (new_BareEmitter :: 'a world)"
    by (simp add: nonempty_entries_def all_plain_def new_BareEmitter_def)
  with emit_keeps [OF assms(1)] have "nonempty_entries w' \<and> all_plain w'"
    using assms(2,3) by (rule run_keeps)
  then show ?thesis by simp
qed

subsection \<open>A once listener that leaves its own event alone\<close>





subsection \<open>The example worlds and programs\<close>

lemma wf_three_listeners: "well_formed three_listeners"
  by (auto simp add: well_formed_def three_listeners_def Object_prototype_def split: if_splits)

lemma mutators_adds_and_removes: "mutators adds_and_removes"
  by (simp add: mutators_def adds_and_removes_def Object_prototype_def)

lemma mutators_inert: "mutators inert"
  by (simp add: mutators_def inert_def)

lemma wf_two_listeners: "well_formed two_listeners"
  by (auto simp add: well_formed_def two_listeners_def Object_prototype_def split: if_splits)

lemma wf_fresh_emitter: "well_formed fresh_emitter"
  by (simp add: fresh_emitter_def wf_new)

section \<open>The claims\<close>

text \<open>
  C1. Whatever the listeners do to the registry while \<open>emit(e, ...)\<close> runs (they may
  call \<open>on\<close>, \<open>off\<close>, \<open>once\<close> and \<open>emit\<close>), a call that returns has itself invoked
  exactly the listeners registered for \<open>e\<close> when it started, in that order and with its
  arguments. With listeners that register and remove listeners the call does return:
  every listener of the snapshot is invoked, also one removed meanwhile; no other
  listener is, also not one added meanwhile; and the next \<open>emit(e, ...)\<close> invokes
  exactly the listeners that the first call left registered, so the added ones too.
\<close>

theorem emit_invokes_snapshot:
  "(\<forall>b w'. emit P fuel d w e args = Returns b w' \<longrightarrow>
      direct d w w' = map (\<lambda>l. (l, args)) (listeners_of w e)) \<and>
   (well_formed w \<and> mutators P \<and> listeners_of w e \<noteq> [] \<longrightarrow>
      (\<exists>w' w''. emit P (Suc fuel) d w e args = Returns True w' \<and>
         direct d w w' = map (\<lambda>l. (l, args)) (listeners_of w e) \<and>
         (\<forall>g. g \<in> set (listeners_of w e) \<longrightarrow> (g, args) \<in> set (direct d w w')) \<and>
         (\<forall>g a. g \<notin> set (listeners_of w e) \<longrightarrow> (g, a) \<notin> set (direct d w w')) \<and>
         emit P (Suc fuel) d w' e args' = Returns (listeners_of w' e \<noteq> []) w'' \<and>
         direct d w' w'' = map (\<lambda>l. (l, args')) (listeners_of w' e) \<and>
         (\<forall>g. g \<in> set (listeners_of w' e) \<longrightarrow> (g, args') \<in> set (direct d w' w''))))"
proof (intro conjI allI impI)
  fix b w'
  assume "emit P fuel d w e args = Returns b w'"
  from emit_Returns_direct [OF this]
  show "direct d w w' = map (\<lambda>l. (l, args)) (listeners_of w e)" by simp
next
  assume a: "well_formed w \<and> mutators P \<and> listeners_of w e \<noteq> []"
  then obtain ls where ls: "events w e = Some ls" "ls \<noteq> []"
    by (auto simp add: listeners_of_def split: option.splits)
  with a emit_mutators [of P w e ls fuel d args]
  obtain w' where "emit P (Suc fuel) d w e args = Returns (ls \<noteq> []) w'" by blast
  with ls(2) have w': "emit P (Suc fuel) d w e args = Returns True w'" by simp
  from emit_Returns_direct [OF this]
  have d1: "direct d w w' = map (\<lambda>l. (l, args)) (listeners_of w e)" by simp
  from w' have fin: "final (emit P (Suc fuel) d w e args) = Some w'" by simp
  from a have "well_formed w" by simp
  from emit_preserves_wf [OF this fin] have wf': "well_formed w'" .
  from a ls(1) have "Object_prototype e = None" by (auto simp add: well_formed_def)
  with a wf' obtain w'' where
    w'': "emit P (Suc fuel) d w' e args' = Returns (listeners_of w' e \<noteq> []) w''"
    using emit_mutators_total [of P w' e fuel d args'] by blast
  from emit_Returns_direct [OF this]
  have d2: "direct d w' w'' = map (\<lambda>l. (l, args')) (listeners_of w' e)" by simp
  from d1 have 1: "\<forall>g. g \<in> set (listeners_of w e) \<longrightarrow> (g, args) \<in> set (direct d w w')"
    and 2: "\<forall>g a. g \<notin> set (listeners_of w e) \<longrightarrow> (g, a) \<notin> set (direct d w w')"
    by auto
  from d2 have 3: "\<forall>g. g \<in> set (listeners_of w' e) \<longrightarrow> (g, args') \<in> set (direct d w' w'')"
    by auto
  from w' d1 1 2 w'' d2 3
  show "\<exists>w' w''. emit P (Suc fuel) d w e args = Returns True w' \<and>
         direct d w w' = map (\<lambda>l. (l, args)) (listeners_of w e) \<and>
         (\<forall>g. g \<in> set (listeners_of w e) \<longrightarrow> (g, args) \<in> set (direct d w w')) \<and>
         (\<forall>g a. g \<notin> set (listeners_of w e) \<longrightarrow> (g, a) \<notin> set (direct d w w')) \<and>
         emit P (Suc fuel) d w' e args' = Returns (listeners_of w' e \<noteq> []) w'' \<and>
         direct d w' w'' = map (\<lambda>l. (l, args')) (listeners_of w' e) \<and>
         (\<forall>g. g \<in> set (listeners_of w' e) \<longrightarrow> (g, args') \<in> set (direct d w' w''))"
    by blast
qed

theorem emit_invokes_snapshot_witness:
  "well_formed three_listeners \<and> mutators adds_and_removes \<and>
   listeners_of three_listeners ''x'' = [Fn 0, Fn 1, Fn 2] \<and>
   (\<exists>w' w''. emit adds_and_removes (Suc 0) 0 three_listeners ''x'' [7] = Returns True w' \<and>
      direct 0 three_listeners w' = [(Fn 0, [7]), (Fn 1, [7]), (Fn 2, [7])] \<and>
      listeners_of w' ''x'' = [Fn 0, Fn 1, Fn 3] \<and>
      emit adds_and_removes (Suc 0) 0 w' ''x'' [8] = Returns True w'' \<and>
      direct 0 w' w'' = [(Fn 0, [8]), (Fn 1, [8]), (Fn 3, [8])])"
proof -
  let ?w1 = "\<lparr>events = [''x'' \<mapsto> [Fn 0, Fn 1, Fn 3]], closures = 0,
              calls = [(0, Fn 0, [7]), (0, Fn 1, [7]), (0, Fn 2, [7])]\<rparr> :: nat world"
  have reg: "listeners_of three_listeners ''x'' = [Fn 0, Fn 1, Fn 2]"
    by (simp add: three_listeners_def listeners_of_def)
  have first: "emit adds_and_removes (Suc 0) 0 three_listeners ''x'' [7] = Returns True ?w1"
    by (simp add: three_listeners_def adds_and_removes_def emit_body_def get_def perform_def
        on_eq off_eq Let_def)
  have left: "listeners_of ?w1 ''x'' = [Fn 0, Fn 1, Fn 3]"
    by (simp add: listeners_of_def)
  from emit_invokes_snapshot [where P = adds_and_removes and fuel = 0 and d = 0
      and w = three_listeners and e = "''x''" and args = "[7]" and args' = "[8]"]
    wf_three_listeners mutators_adds_and_removes reg
  obtain w' w'' where
    "emit adds_and_removes (Suc 0) 0 three_listeners ''x'' [7] = Returns True w'"
    "direct 0 three_listeners w' = map (\<lambda>l. (l, [7])) [Fn 0, Fn 1, Fn 2]"
    "emit adds_and_removes (Suc 0) 0 w' ''x'' [8] = Returns (listeners_of w' ''x'' \<noteq> []) w''"
    "direct 0 w' w'' = map (\<lambda>l. (l, [8])) (listeners_of w' ''x'')"
    by auto
  with first left have
    "emit adds_and_removes (Suc 0) 0 three_listeners ''x'' [7] = Returns True ?w1 \<and>
     direct 0 three_listeners ?w1 = [(Fn 0, [7]), (Fn 1, [7]), (Fn 2, [7])] \<and>
     listeners_of ?w1 ''x'' = [Fn 0, Fn 1, Fn 3] \<and>
     emit adds_and_removes (Suc 0) 0 ?w1 ''x'' [8] = Returns True w'' \<and>
     direct 0 ?w1 w'' = [(Fn 0, [8]), (Fn 1, [8]), (Fn 3, [8])]"
    by simp
  with wf_three_listeners mutators_adds_and_removes reg show ?thesis by blast
qed

text \<open>
  C2 fails on the code: \<open>onceWrapper\<close> calls \<open>listener(...args)\<close> first and
  \<open>this.off(eventName, onceWrapper)\<close> after it, so the adapter is still registered
  while the listener runs. Here \<open>once('x', f)\<close>, where \<open>f\<close> calls \<open>emit('x', ...)\<close> the
  first time it runs: one \<open>emit('x', 7)\<close> of the calling code invokes the same adapter,
  and through it \<open>f\<close>, twice.
\<close>

theorem once_adapter_invoked_twice:
  "map_option calls (final (run (emit reenters (Suc (Suc 0))) 0
       [CallOnce ''x'' 0, CallEmit ''x'' [7]] fresh_emitter)) =
   Some [(0, OnceWrapper 0 ''x'' (Fn 0), [7]), (1, Fn 0, [7]),
         (2, OnceWrapper 0 ''x'' (Fn 0), [7]), (3, Fn 0, [7])]"
  by (simp add: fresh_emitter_def new_BareEmitter_def reenters_def perform_def once_eq on_eq off_eq
      emit_body_def get_def Object_prototype_def Let_def)

text \<open>
  C3, as the code has it.
  \<^item> \<open>off(e)\<close> always drops the key \<open>e\<close> and leaves the other keys alone.
  \<^item> \<open>on\<close>, \<open>once\<close> and \<open>off(e)\<close> keep every registered sequence non-empty.
  \<^item> A targeted \<open>off(e, f)\<close> keeps the key \<open>e\<close> and stores the sequence without \<open>f\<close>,
    empty or not.
  \<^item> \<open>emit(e)\<close> on an empty sequence returns false and leaves the world as it is, and so
    does \<open>emit(e)\<close> on an absent key (of a name that \<open>Object.prototype\<close> does not define).
  \<^item> \<open>emit\<close> keeps every registered sequence non-empty when no targeted \<open>off\<close> runs
    during it: no \<open>once\<close> adapter is registered and the listeners call neither
    \<open>off(e, f)\<close> nor \<open>once\<close>. So does every sequence of such calls on a new emitter.
\<close>

theorem registry_entries:
  "(\<exists>w'. off w e None = Returns () w' \<and> events w' e = None \<and>
         (\<forall>key. key \<noteq> e \<longrightarrow> events w' key = events w key)) \<and>
   (nonempty_entries w \<longrightarrow>
      (\<forall>w'. final (on w e f) = Some w' \<longrightarrow> nonempty_entries w') \<and>
      (\<forall>w'. final (once w e f) = Some w' \<longrightarrow> nonempty_entries w') \<and>
      (\<forall>w'. final (off w e None) = Some w' \<longrightarrow> nonempty_entries w')) \<and>
   (\<forall>ls. events w e = Some ls \<longrightarrow>
      off w e (Some f) = Returns () (w\<lparr>events := (events w)(e \<mapsto> filter (\<lambda>fn. fn \<noteq> f) ls)\<rparr>)) \<and>
   (events w e = Some [] \<longrightarrow> emit P (Suc fuel) d w e args = Returns False w) \<and>
   (events w e = None \<and> Object_prototype e = None \<longrightarrow>
      emit P (Suc fuel) d w e args = Returns False w) \<and>
   (nonempty_entries w \<and> all_plain w \<and> (\<forall>n args v. list_all gentle (P n args v)) \<longrightarrow>
      (\<forall>w'. final (emit P fuel d w e args) = Some w' \<longrightarrow> nonempty_entries w')) \<and>
   ((\<forall>n args v. list_all gentle (P n args v)) \<and> list_all gentle script \<longrightarrow>
      (\<forall>w'. final (run (emit P fuel) d script new_BareEmitter) = Some w' \<longrightarrow> nonempty_entries w'))"
proof -
  have 1: "\<exists>w'. off w e None = Returns () w' \<and> events w' e = None \<and>
         (\<forall>key. key \<noteq> e \<longrightarrow> events w' key = events w key)"
    by (rule off_all_drops)
  have 2: "nonempty_entries w'"
    if "nonempty_entries w" and "final (on w e f) = Some w'" for w'
    using that by (rule nonempty_on)
  have 3: "nonempty_entries w'"
    if "nonempty_entries w" and "final (once w e f) = Some w'" for w'
    using that by (rule nonempty_once)
  have 4: "nonempty_entries w'"
    if "nonempty_entries w" and "final (off w e None) = Some w'" for w'
    using nonempty_off_all [OF that(1), of e] that(2) by auto
  have 5: "off w e (Some f) =
      Returns () (w\<lparr>events := (events w)(e \<mapsto> filter (\<lambda>fn. fn \<noteq> f) ls)\<rparr>)"
    if "events w e = Some ls" for ls
    using that by (simp add: off_eq)
  have 6: "emit P (Suc fuel) d w e args = Returns False w" if "events w e = Some []"
    using that emit_no_listeners [of w e P fuel d args] by (simp add: listeners_of_def)
  have 7: "emit P (Suc fuel) d w e args = Returns False w"
    if "events w e = None \<and> Object_prototype e = None"
    using that emit_no_listeners [of w e P fuel d args] by (simp add: listeners_of_def)
  have 8: "nonempty_entries w'"
    if "nonempty_entries w \<and> all_plain w \<and> (\<forall>n args v. list_all gentle (P n args v))"
      and "final (emit P fuel d w e args) = Some w'" for w'
    using that emit_keeps_nonempty [of P w fuel d e args w'] by blast
  have 9: "nonempty_entries w'"
    if "(\<forall>n args v. list_all gentle (P n args v)) \<and> list_all gentle script"
      and "final (run (emit P fuel) d script new_BareEmitter) = Some w'" for w'
    using that run_keeps_nonempty [of P script fuel d w'] by blast
  from 1 2 3 4 5 6 7 8 9 show ?thesis by blast
qed

theorem registry_entries_witness:
  "off z_emptied ''z'' None = Returns () fresh_emitter \<and> events fresh_emitter ''z'' = None \<and>
   nonempty_entries z_registered \<and>
   on z_registered ''z'' (Fn 1) =
     Returns () (z_registered\<lparr>events := [''z'' \<mapsto> [Fn 0, Fn 1]]\<rparr>) \<and>
   nonempty_entries (z_registered\<lparr>events := [''z'' \<mapsto> [Fn 0, Fn 1]]\<rparr>) \<and>
   events z_registered ''z'' = Some [Fn 0] \<and>
   off z_registered ''z'' (Some (Fn 0)) = Returns () z_emptied \<and>
   events z_emptied ''z'' = Some [] \<and>
   emit inert (Suc 0) 0 z_emptied ''z'' [] = Returns False z_emptied \<and>
   Object_prototype ''z'' = None \<and>
   emit inert (Suc 0) 0 fresh_emitter ''z'' [] = Returns False fresh_emitter \<and>
   all_plain z_registered \<and> (\<forall>n args v. list_all gentle (registers_more n args v)) \<and>
   (\<exists>w'. emit registers_more (Suc 0) 0 z_registered ''z'' [] = Returns True w' \<and>
         events w' ''z'' = Some [Fn 0, Fn 1] \<and> nonempty_entries w') \<and>
   list_all gentle [CallOn ''z'' 0, CallEmit ''z'' ([]::nat list), CallOff ''y'' None] \<and>
   (\<exists>w'. run (emit registers_more (Suc 0)) 0 [CallOn ''z'' 0, CallEmit ''z'' [], CallOff ''y'' None]
           fresh_emitter = Returns () w' \<and>
         events w' ''z'' = Some [Fn 0, Fn 1] \<and> nonempty_entries w')"
proof -
  let ?two = "z_registered\<lparr>events := [''z'' \<mapsto> [Fn 0, Fn 1]]\<rparr>"
  let ?emitted = "\<lparr>events = [''z'' \<mapsto> [Fn 0, Fn 1]], closures = 0, calls = [(0, Fn 0, [])]\<rparr> :: nat world"
  have drop: "off z_emptied ''z'' None = Returns () fresh_emitter"
    by (simp add: off_eq z_emptied_def fresh_emitter_def new_BareEmitter_def)
  have absent: "events fresh_emitter ''z'' = None"
    by (simp add: fresh_emitter_def new_BareEmitter_def)
  have inv: "nonempty_entries z_registered"
    by (simp add: nonempty_entries_def z_registered_def)
  have reg: "on z_registered ''z'' (Fn 1) = Returns () ?two"
    by (simp add: on_eq z_registered_def)
  have entry: "events z_registered ''z'' = Some [Fn 0]"
    by (simp add: z_registered_def)
  have same: "z_registered\<lparr>events := (events z_registered)(''z'' \<mapsto> filter (\<lambda>fn. fn \<noteq> Fn 0) [Fn 0])\<rparr> =
      z_emptied"
    by (simp add: z_registered_def z_emptied_def)
  have empty: "events z_emptied ''z'' = Some []"
    by (simp add: z_emptied_def)
  have name: "Object_prototype ''z'' = None"
    by (simp add: Object_prototype_def)
  have pl: "all_plain z_registered"
    by (simp add: all_plain_def z_registered_def)
  have prog: "\<forall>n args v. list_all gentle (registers_more n args v)"
    by (simp add: registers_more_def)
  have script: "list_all gentle [CallOn ''z'' 0, CallEmit ''z'' ([]::nat list), CallOff ''y'' None]"
    by simp
  have em: "emit registers_more (Suc 0) 0 z_registered ''z'' [] = Returns True ?emitted"
    by (simp add: z_registered_def registers_more_def emit_body_def get_def perform_def on_eq Let_def)
  have sc: "run (emit registers_more (Suc 0)) 0 [CallOn ''z'' 0, CallEmit ''z'' [], CallOff ''y'' None]
      fresh_emitter = Returns () ?emitted"
    by (simp add: fresh_emitter_def new_BareEmitter_def registers_more_def emit_body_def get_def
        perform_def on_eq off_eq Let_def Object_prototype_def)
  note inst = registry_entries [where w = z_registered and e = "''z''" and f = "Fn 1"
      and P = registers_more and fuel = "Suc 0" and d = 0 and args = "[]"
      and script = "[CallOn ''z'' 0, CallEmit ''z'' [], CallOff ''y'' None]"]
  from inst inv reg have 1: "nonempty_entries ?two" by simp
  from registry_entries [where w = z_registered and e = "''z''" and f = "Fn 0"] entry same
  have 2: "off z_registered ''z'' (Some (Fn 0)) = Returns () z_emptied" by simp
  from registry_entries [where w = z_emptied and e = "''z''" and P = inert and fuel = 0
      and d = 0 and args = "[]"] empty
  have 3: "emit inert (Suc 0) 0 z_emptied ''z'' [] = Returns False z_emptied" by blast
  from registry_entries [where w = fresh_emitter and e = "''z''" and P = inert and fuel = 0
      and d = 0 and args = "[]"] absent name
  have 4: "emit inert (Suc 0) 0 fresh_emitter ''z'' [] = Returns False fresh_emitter" by blast
  from inst inv pl prog
  have "\<forall>w'. final (emit registers_more (Suc 0) 0 z_registered ''z'' []) = Some w' \<longrightarrow>
      nonempty_entries w'"
    by blast
  with em have 5: "nonempty_entries ?emitted" by simp
  from inst prog script
  have "\<forall>w'. final (run (emit registers_more (Suc 0)) 0
      [CallOn ''z'' 0, CallEmit ''z'' [], CallOff ''y'' None] (new_BareEmitter :: nat world)) = Some w' \<longrightarrow>
      nonempty_entries w'"
    by blast
  have 6: "events ?emitted ''z'' = Some [Fn 0, Fn 1]" by simp
  from em 5 6 have 7: "\<exists>w'. emit registers_more (Suc 0) 0 z_registered ''z'' [] = Returns True w' \<and>
      events w' ''z'' = Some [Fn 0, Fn 1] \<and> nonempty_entries w'"
    by blast
  from sc 5 6 have 8: "\<exists>w'. run (emit registers_more (Suc 0)) 0
      [CallOn ''z'' 0, CallEmit ''z'' [], CallOff ''y'' None] fresh_emitter = Returns () w' \<and>
      events w' ''z'' = Some [Fn 0, Fn 1] \<and> nonempty_entries w'"
    by blast
  from drop absent inv reg 1 entry 2 empty 3 name 4 pl prog 7 script 8 show ?thesis by blast
qed

text \<open>
  C3, as the spec states it, fails: after \<open>on('z', f); off('z', f)\<close> on a new emitter
  the key \<open>'z'\<close> is still in the registry, mapped to the empty sequence.
\<close>

theorem targeted_off_keeps_empty_entry:
  "on fresh_emitter ''z'' (Fn 0) = Returns () z_registered \<and>
   nonempty_entries z_registered \<and>
   off z_registered ''z'' (Some (Fn 0)) = Returns () z_emptied \<and>
   events z_emptied ''z'' = Some [] \<and>
   \<not> nonempty_entries z_emptied"
proof -
  have "events z_emptied ''z'' = Some []" by (simp add: z_emptied_def)
  then have "\<not> nonempty_entries z_emptied" unfolding nonempty_entries_def by blast
  then show ?thesis
    by (simp add: on_eq off_eq fresh_emitter_def new_BareEmitter_def z_registered_def z_emptied_def
        nonempty_entries_def Object_prototype_def)
qed

text \<open>
  C4. When at least one listener is registered for \<open>e\<close> (and the listeners return),
  \<open>emit(e, args...)\<close> returns true after invoking every entry of the sequence, once per
  occurrence and in the order of the sequence, each with exactly \<open>args\<close>; and the order of
  the sequence is the order of registration, since \<open>on\<close> appends at its end.
\<close>

theorem emit_invokes_all_in_order:
  assumes "well_formed w" and "mutators P" and "events w e = Some ls" and "ls \<noteq> []"
  shows "(\<exists>w'. emit P (Suc fuel) d w e args = Returns True w' \<and>
               direct d w w' = map (\<lambda>l. (l, args)) ls) \<and>
         on w e f = Returns () (w\<lparr>events := (events w)(e \<mapsto> ls @ [f])\<rparr>)"
proof -
  from emit_mutators [OF assms(2,1,3)]
  obtain w' where "emit P (Suc fuel) d w e args = Returns (ls \<noteq> []) w'" by blast
  with assms(4) have w': "emit P (Suc fuel) d w e args = Returns True w'" by simp
  from emit_Returns_direct [OF this] assms(3)
  have "direct d w w' = map (\<lambda>l. (l, args)) ls" by (simp add: listeners_of_def)
  with w' assms(3) show ?thesis by (auto simp add: on_eq)
qed

theorem emit_invokes_all_in_order_witness:
  "run (emit inert 0) 0 [CallOn ''x'' 0, CallOn ''x'' 1] new_BareEmitter = Returns () two_listeners \<and>
   well_formed two_listeners \<and> mutators inert \<and>
   events two_listeners ''x'' = Some [Fn 0, Fn 1] \<and> [Fn 0, Fn 1] \<noteq> [] \<and>
   emit inert (Suc 0) 0 two_listeners ''x'' [1, 2] =
     Returns True (two_listeners\<lparr>calls := [(0, Fn 0, [1, 2]), (0, Fn 1, [1, 2])]\<rparr>) \<and>
   direct 0 two_listeners (two_listeners\<lparr>calls := [(0, Fn 0, [1, 2]), (0, Fn 1, [1, 2])]\<rparr>) =
     [(Fn 0, [1, 2]), (Fn 1, [1, 2])] \<and>
   on two_listeners ''x'' (Fn 0) = Returns () registered_twice \<and>
   well_formed registered_twice \<and>
   events registered_twice ''x'' = Some [Fn 0, Fn 1, Fn 0] \<and> [Fn 0, Fn 1, Fn 0] \<noteq> [] \<and>
   (\<exists>w'. emit inert (Suc 0) 0 registered_twice ''x'' [1, 2] = Returns True w' \<and>
         direct 0 registered_twice w' = [(Fn 0, [1, 2]), (Fn 1, [1, 2]), (Fn 0, [1, 2])])"
proof -
  have script: "run (emit inert 0) 0 [CallOn ''x'' 0, CallOn ''x'' 1] new_BareEmitter =
      Returns () two_listeners"
    by (simp add: perform_def on_eq new_BareEmitter_def two_listeners_def Object_prototype_def)
  have reg: "events two_listeners ''x'' = Some [Fn 0, Fn 1]"
    by (simp add: two_listeners_def)
  have ne: "[Fn 0, Fn 1] \<noteq> []" by simp
  have run: "emit inert (Suc 0) 0 two_listeners ''x'' [1, 2] =
      Returns True (two_listeners\<lparr>calls := [(0, Fn 0, [1, 2]), (0, Fn 1, [1, 2])]\<rparr>)"
    by (simp add: two_listeners_def inert_def emit_body_def get_def)
  have same: "two_listeners\<lparr>events := (events two_listeners)(''x'' \<mapsto> [Fn 0, Fn 1] @ [Fn 0])\<rparr> =
      registered_twice"
    by (simp add: two_listeners_def registered_twice_def)
  from emit_invokes_all_in_order [OF wf_two_listeners mutators_inert reg ne, of 0 0 "[1, 2]" "Fn 0"]
    run same
  have 1: "direct 0 two_listeners (two_listeners\<lparr>calls := [(0, Fn 0, [1, 2]), (0, Fn 1, [1, 2])]\<rparr>) =
      [(Fn 0, [1, 2]), (Fn 1, [1, 2])]"
    and 2: "on two_listeners ''x'' (Fn 0) = Returns () registered_twice"
    by simp_all
  have wf2: "well_formed registered_twice"
    by (auto simp add: well_formed_def registered_twice_def Object_prototype_def split: if_splits)
  have reg2: "events registered_twice ''x'' = Some [Fn 0, Fn 1, Fn 0]"
    by (simp add: registered_twice_def)
  have ne2: "[Fn 0, Fn 1, Fn 0] \<noteq> []" by simp
  from emit_invokes_all_in_order [OF wf2 mutators_inert reg2 ne2, of 0 0 "[1, 2]" "Fn 0"]
  have 3: "\<exists>w'. emit inert (Suc 0) 0 registered_twice ''x'' [1, 2] = Returns True w' \<and>
      direct 0 registered_twice w' = [(Fn 0, [1, 2]), (Fn 1, [1, 2]), (Fn 0, [1, 2])]"
    by simp
  from script wf_two_listeners mutators_inert reg ne run 1 2 wf2 reg2 ne2 3
  show ?thesis by blast
qed

text \<open>
  C5 fails on the code for the event names that \<open>Object.prototype\<close> defines:
  \<open>emit('constructor')\<close> on a new emitter reads the function \<open>Object\<close>, whose \<open>length\<close>
  is 1, and throws a TypeError when it spreads it.
\<close>

theorem emit_inherited_name_throws:
  "emit P (Suc fuel) d new_BareEmitter ''constructor'' args = Throws TypeError new_BareEmitter"
  by (simp add: emit_body_def get_def new_BareEmitter_def Object_prototype_def)

text \<open>
  C6 fails on the code for the same names: \<open>off('constructor', f)\<close> on a new emitter
  finds the function \<open>Object\<close>, which has no \<open>filter\<close>, and throws a TypeError.
\<close>

theorem off_inherited_name_throws:
  "off new_BareEmitter ''constructor'' (Some f) = Throws TypeError new_BareEmitter"
  by (simp add: off_eq new_BareEmitter_def Object_prototype_def)




text \<open>
  C8. After \<open>once(e, f)\<close>, \<open>off(e, f)\<close> with the function \<open>f\<close> itself removes the
  occurrences of \<open>f\<close> that \<open>on\<close> registered and keeps the adapter, which stays the last
  entry for \<open>e\<close>; the next \<open>emit(e, ...)\<close> invokes the adapter, and the adapter
  invokes \<open>f\<close>.
\<close>

theorem off_original_keeps_adapter:
  assumes "well_formed w" and "mutators P" and "once w e (Fn n) = Returns () w1"
  shows "\<exists>w2 w3. off w1 e (Some (Fn n)) = Returns () w2 \<and>
           listeners_of w2 e =
             filter (\<lambda>fn. fn \<noteq> Fn n) (listeners_of w e) @ [OnceWrapper (closures w) e (Fn n)] \<and>
           emit P (Suc fuel) d w2 e args = Returns True w3 \<and>
           (d, OnceWrapper (closures w) e (Fn n), args) \<in> set (since w2 w3) \<and>
           (Suc d, Fn n, args) \<in> set (since w2 w3)"
proof -
  let ?a = "OnceWrapper (closures w) e (Fn n)"
  let ?ls = "filter (\<lambda>fn. fn \<noteq> Fn n) (listeners_of w e) @ [?a]"
  from assms(3) have w1: "w1 = w\<lparr>closures := Suc (closures w),
      events := (events w)(e \<mapsto> listeners_of w e @ [?a])\<rparr>"
    by (auto simp add: once_eq on_eq listeners_of_def split: option.splits)
  let ?w2 = "w1\<lparr>events := (events w1)(e \<mapsto> ?ls)\<rparr>"
  have off: "off w1 e (Some (Fn n)) = Returns () ?w2"
    by (simp add: w1 off_eq)
  have reg: "events ?w2 e = Some ?ls" by simp
  from assms(3) have "final (once w e (Fn n)) = Some w1" by simp
  with assms(1) have "well_formed w1" by (rule wf_once)
  moreover from off have "final (off w1 e (Some (Fn n))) = Some ?w2" by simp
  ultimately have wf2: "well_formed ?w2" by (rule wf_off)
  from emit_mutators [OF assms(2) wf2 reg, of fuel d args]
  obtain w3 where w3: "emit P (Suc fuel) d ?w2 e args = Returns True w3" by auto
  then obtain u where each: "forEach (emit P fuel) P d ?ls args ?w2 = Returns u w3"
    by (auto simp add: emit_body_def get_def split: outcome.splits)
  from forEach_Returns_calls [OF emit_ok each] obtain new where
    new: "calls w3 = calls ?w2 @ new"
      "map snd (filter (\<lambda>c. fst c = d) new) = map (\<lambda>l. (l, args)) ?ls"
    by blast
  have "?a \<in> set ?ls" by simp
  with new(2) have "(d, ?a, args) \<in> set new" by (rule direct_member)
  with new(1) have a: "(d, ?a, args) \<in> set (since ?w2 w3)" by (simp add: since_def)
  have f: "(Suc d, Fn n, args) \<in> set (since ?w2 w3)"
    using forEach_adapter_calls [OF emit_ok each, of "closures w" e "Fn n"] by simp
  have "listeners_of ?w2 e = ?ls" by (simp add: listeners_of_def)
  with off w3 a f show ?thesis by blast
qed

theorem off_original_keeps_adapter_witness:
  "well_formed fresh_emitter \<and> mutators inert \<and>
   once fresh_emitter ''y'' (Fn 0) = Returns () once_registered \<and>
   off once_registered ''y'' (Some (Fn 0)) = Returns () once_registered \<and>
   listeners_of once_registered ''y'' = [OnceWrapper 0 ''y'' (Fn 0)] \<and>
   emit inert (Suc 0) 0 once_registered ''y'' [5] = Returns True once_fired \<and>
   (0, OnceWrapper 0 ''y'' (Fn 0), [5]) \<in> set (since once_registered once_fired) \<and>
   (Suc 0, Fn 0, [5]) \<in> set (since once_registered once_fired)"
proof -
  have reg: "once fresh_emitter ''y'' (Fn 0) = Returns () once_registered"
    by (simp add: once_eq on_eq fresh_emitter_def new_BareEmitter_def once_registered_def
        Object_prototype_def)
  have off: "off once_registered ''y'' (Some (Fn 0)) = Returns () once_registered"
    by (simp add: off_eq once_registered_def)
  have ls: "listeners_of once_registered ''y'' = [OnceWrapper 0 ''y'' (Fn 0)]"
    by (simp add: listeners_of_def once_registered_def)
  have first: "emit inert (Suc 0) 0 once_registered ''y'' [5] = Returns True once_fired"
    by (simp add: inert_def emit_body_def get_def off_eq once_registered_def once_fired_def)
  have c: "closures fresh_emitter = 0" by (simp add: fresh_emitter_def new_BareEmitter_def)
  from off_original_keeps_adapter [OF wf_fresh_emitter mutators_inert reg, of 0 0 "[5]"]
  obtain w2 w3 where
    "off once_registered ''y'' (Some (Fn 0)) = Returns () w2"
    "emit inert (Suc 0) 0 w2 ''y'' [5] = Returns True w3"
    "(0, OnceWrapper (closures fresh_emitter) ''y'' (Fn 0), [5]) \<in> set (since w2 w3)"
    "(Suc 0, Fn 0, [5]) \<in> set (since w2 w3)"
    by blast
  with off first c have "(0, OnceWrapper 0 ''y'' (Fn 0), [5]) \<in> set (since once_registered once_fired)"
    "(Suc 0, Fn 0, [5]) \<in> set (since once_registered once_fired)"
    by simp_all
  with wf_fresh_emitter mutators_inert reg off ls first show ?thesis by blast
qed

text \<open>
  C9. When the first \<open>k\<close> listeners of the snapshot return and the next one throws,
  \<open>emit\<close> throws the same error in the world that listener left, and it has invoked
  the first \<open>k + 1\<close> listeners of the snapshot and no other. Whenever \<open>emit(e, ...)\<close>
  throws with listeners registered for \<open>e\<close>, the listeners it has invoked are such a
  prefix of the snapshot: the emitter neither catches the failure nor goes on.
\<close>

theorem emit_propagates_failure:
  assumes "events w e = Some ls" and "k < length ls"
    and "forEach (emit P fuel) P d (take k ls) args w = Returns () wk"
    and "invoke (emit P fuel) P d (ls ! k) args wk = Throws x w'"
  shows "emit P (Suc fuel) d w e args = Throws x w' \<and>
         direct d w w' = map (\<lambda>l. (l, args)) (take (Suc k) ls) \<and>
         (\<forall>n y v. emit P n d w e args = Throws y v \<longrightarrow>
            (\<exists>j<length ls. direct d w v = map (\<lambda>l. (l, args)) (take (Suc j) ls)))"
proof -
  from assms(2) have ls: "ls = take k ls @ (ls ! k) # drop (Suc k) ls"
    by (simp add: id_take_nth_drop)
  have "forEach (emit P fuel) P d (take k ls @ (ls ! k) # drop (Suc k) ls) args w = Throws x w'"
    using assms(3,4) by (simp add: forEach_append)
  with ls have "forEach (emit P fuel) P d ls args w = Throws x w'" by simp
  moreover from assms(2) have "ls \<noteq> []" by auto
  ultimately have 1: "emit P (Suc fuel) d w e args = Throws x w'"
    using assms(1) by (simp add: emit_body_def get_def)
  from forEach_Returns_calls [OF emit_ok assms(3)] obtain new where
    new: "calls wk = calls w @ new"
      "map snd (filter (\<lambda>c. fst c = d) new) = map (\<lambda>l. (l, args)) (take k ls)"
    by blast
  from assms(4) have "final (invoke (emit P fuel) P d (ls ! k) args wk) = Some w'" by simp
  from invoke_calls [OF emit_ok this] obtain rest where
    rest: "calls w' = calls wk @ (d, ls ! k, args) # rest" "list_all (\<lambda>c. Suc d \<le> fst c) rest"
    by blast
  from rest(2) have "filter (\<lambda>c. fst c = d) rest = []" by (rule deeper_not_direct)
  with new rest(1) assms(2) have 2: "direct d w w' = map (\<lambda>l. (l, args)) (take (Suc k) ls)"
    by (simp add: direct_def since_def take_Suc_conv_app_nth)
  have 3: "\<forall>n y v. emit P n d w e args = Throws y v \<longrightarrow>
      (\<exists>j<length ls. direct d w v = map (\<lambda>l. (l, args)) (take (Suc j) ls))"
    using assms(1) by (blast intro: emit_Throws_direct)
  from 1 2 3 show ?thesis by blast
qed

theorem emit_propagates_failure_witness:
  "events three_listeners ''x'' = Some [Fn 0, Fn 1, Fn 2] \<and> Suc 0 < length [Fn 0, Fn 1, Fn 2] \<and>
   forEach (emit second_throws 0) second_throws 0 (take (Suc 0) [Fn 0, Fn 1, Fn 2]) [7] three_listeners =
     Returns () (three_listeners\<lparr>calls := [(0, Fn 0, [7])]\<rparr>) \<and>
   invoke (emit second_throws 0) second_throws 0 ([Fn 0, Fn 1, Fn 2] ! Suc 0) [7]
       (three_listeners\<lparr>calls := [(0, Fn 0, [7])]\<rparr>) =
     Throws (ListenerError 42) (three_listeners\<lparr>calls := [(0, Fn 0, [7]), (0, Fn 1, [7])]\<rparr>) \<and>
   emit second_throws (Suc 0) 0 three_listeners ''x'' [7] =
     Throws (ListenerError 42) (three_listeners\<lparr>calls := [(0, Fn 0, [7]), (0, Fn 1, [7])]\<rparr>) \<and>
   direct 0 three_listeners (three_listeners\<lparr>calls := [(0, Fn 0, [7]), (0, Fn 1, [7])]\<rparr>) =
     [(Fn 0, [7]), (Fn 1, [7])]"
proof -
  have reg: "events three_listeners ''x'' = Some [Fn 0, Fn 1, Fn 2]"
    by (simp add: three_listeners_def)
  have k: "Suc 0 < length [Fn 0, Fn 1, Fn (2::nat)]" by simp
  have before: "forEach (emit second_throws 0) second_throws 0 (take (Suc 0) [Fn 0, Fn 1, Fn 2]) [7]
      three_listeners = Returns () (three_listeners\<lparr>calls := [(0, Fn 0, [7])]\<rparr>)"
    by (simp add: three_listeners_def second_throws_def)
  have throws: "invoke (emit second_throws 0) second_throws 0 ([Fn 0, Fn 1, Fn 2] ! Suc 0) [7]
       (three_listeners\<lparr>calls := [(0, Fn 0, [7])]\<rparr>) =
     Throws (ListenerError 42) (three_listeners\<lparr>calls := [(0, Fn 0, [7]), (0, Fn 1, [7])]\<rparr>)"
    by (simp add: three_listeners_def second_throws_def perform_def)
  from emit_propagates_failure [OF reg k before throws] reg before throws
  show ?thesis by simp
qed

text \<open>
  C10, as the code has it. For distinct event names \<open>e\<close> and \<open>e'\<close>: \<open>on(e, f)\<close>,
  \<open>off(e)\<close>, \<open>off(e, f)\<close> and \<open>once(e, f)\<close> end (returning or throwing) in a world
  where the registry entry of \<open>e'\<close> is as before. So does every \<open>emit(e, ...)\<close> that
  ends, when the listeners call neither \<open>on\<close>, \<open>off\<close> nor \<open>once\<close> and none of them
  calls \<open>emit(e')\<close> while a \<open>once\<close> adapter is registered for \<open>e'\<close>; and when they
  do not call \<open>emit\<close> at all, it ends.
\<close>

theorem other_event_names_unchanged:
  assumes "e \<noteq> e'"
  shows "(\<exists>w'. final (on w e f) = Some w' \<and> events w' e' = events w e') \<and>
         (\<exists>w'. final (off w e None) = Some w' \<and> events w' e' = events w e') \<and>
         (\<exists>w'. final (off w e (Some f)) = Some w' \<and> events w' e' = events w e') \<and>
         (\<exists>w'. final (once w e f) = Some w' \<and> events w' e' = events w e') \<and>
         (well_formed w \<and>
          (\<forall>n args v. list_all (onlooker (entry_plain (events w e')) e') (P n args v)) \<longrightarrow>
            (\<forall>w'. final (emit P fuel d w e args) = Some w' \<longrightarrow> events w' e' = events w e') \<and>
            ((\<forall>n args v. list_all (\<lambda>a. \<not> calls_emit a) (P n args v)) \<longrightarrow>
               (\<exists>w'. final (emit P (Suc fuel) d w e args) = Some w' \<and>
                     events w' e' = events w e')))"
proof -
  have "events w' e' = events w e'"
    if "well_formed w" and "\<forall>n args v. list_all (onlooker (entry_plain (events w e')) e') (P n args v)"
      and "final (emit P k d w e args) = Some w'" for w' k
    using that(2,1) assms that(3) by (rule emit_leaves_other_entry)
  moreover have "\<exists>w'. final (emit P (Suc fuel) d w e args) = Some w'"
    if "\<forall>n args v. list_all (\<lambda>a. \<not> calls_emit a) (P n args v)"
    using emit_ends [OF that, of fuel d w e args] by blast
  ultimately show ?thesis
    using assms on_frame [of e e' w f] off_frame [of e e' w] once_frame [of e e' w f]
    by blast
qed

theorem other_event_names_unchanged_witness:
  "''x'' \<noteq> ''y'' \<and>
   on adapters_and_emits ''x'' (Fn 3) =
     Returns () (adapters_and_emits\<lparr>events := (events adapters_and_emits)
        (''x'' \<mapsto> [OnceWrapper 0 ''x'' (Fn 0), Fn 1, Fn 3])\<rparr>) \<and>
   well_formed adapters_and_emits \<and>
   (\<forall>n args v. list_all (onlooker (entry_plain (events adapters_and_emits ''y'')) ''y'') (emits_z n args v)) \<and>
   (\<exists>w'. emit emits_z (Suc (Suc 0)) 0 adapters_and_emits ''x'' [7] = Returns True w' \<and>
         events w' ''x'' = Some [Fn 1] \<and>
         events w' ''y'' = events adapters_and_emits ''y'' \<and>
         events w' ''y'' = Some [OnceWrapper 1 ''y'' (Fn 2)]) \<and>
   (\<forall>n args v. list_all (onlooker (entry_plain (events adapters_and_emits ''y'')) ''y'') (second_throws n args v)) \<and>
   (\<forall>n args v. list_all (\<lambda>a. \<not> calls_emit a) (second_throws n args v)) \<and>
   (\<exists>w'. emit second_throws (Suc 0) 0 adapters_and_emits ''x'' [7] = Throws (ListenerError 42) w' \<and>
         events w' ''x'' = Some [Fn 1] \<and>
         events w' ''y'' = events adapters_and_emits ''y'')"
proof -
  have ne: "''x'' \<noteq> ''y''" by simp
  have reg: "on adapters_and_emits ''x'' (Fn 3) =
     Returns () (adapters_and_emits\<lparr>events := (events adapters_and_emits)
        (''x'' \<mapsto> [OnceWrapper 0 ''x'' (Fn 0), Fn 1, Fn 3])\<rparr>)"
    by (simp add: on_eq adapters_and_emits_def)
  have wf: "well_formed adapters_and_emits"
    by (auto simp add: well_formed_def adapters_and_emits_def Object_prototype_def split: if_splits)
  have quiet: "\<forall>n args v. list_all (onlooker (entry_plain (events adapters_and_emits ''y'')) ''y'') (emits_z n args v)"
    by (simp add: emits_z_def)
  have quiet': "\<forall>n args v. list_all (onlooker (entry_plain (events adapters_and_emits ''y'')) ''y'') (second_throws n args v)"
    by (simp add: second_throws_def)
  have no_emit: "\<forall>n args v. list_all (\<lambda>a. \<not> calls_emit a) (second_throws n args v)"
    by (simp add: second_throws_def)
  have run: "emit emits_z (Suc (Suc 0)) 0 adapters_and_emits ''x'' [7] =
      Returns True \<lparr>events = [''x'' \<mapsto> [Fn 1], ''y'' \<mapsto> [OnceWrapper 1 ''y'' (Fn 2)]], closures = 2,
        calls = [(0, OnceWrapper 0 ''x'' (Fn 0), [7]), (Suc 0, Fn 0, [7]), (0, Fn 1, [7])]\<rparr>"
    by (simp add: adapters_and_emits_def emits_z_def emit_body_def get_def perform_def off_eq
        Object_prototype_def fun_upd_twist)
  have run': "emit second_throws (Suc 0) 0 adapters_and_emits ''x'' [7] =
      Throws (ListenerError 42) \<lparr>events = [''x'' \<mapsto> [Fn 1], ''y'' \<mapsto> [OnceWrapper 1 ''y'' (Fn 2)]],
        closures = 2,
        calls = [(0, OnceWrapper 0 ''x'' (Fn 0), [7]), (Suc 0, Fn 0, [7]), (0, Fn 1, [7])]\<rparr>"
    by (simp add: adapters_and_emits_def second_throws_def emit_body_def get_def perform_def off_eq
        fun_upd_twist)
  from other_event_names_unchanged [OF ne, of adapters_and_emits "Fn 3" emits_z "Suc (Suc 0)" 0 "[7]"]
    wf quiet
  have "\<forall>w'. final (emit emits_z (Suc (Suc 0)) 0 adapters_and_emits ''x'' [7]) = Some w' \<longrightarrow>
      events w' ''y'' = events adapters_and_emits ''y''"
    by blast
  with run have 1: "events \<lparr>events = [''x'' \<mapsto> [Fn 1], ''y'' \<mapsto> [OnceWrapper 1 ''y'' (Fn 2)]], closures = 2,
        calls = [(0, OnceWrapper 0 ''x'' (Fn 0), [7]), (Suc 0, Fn 0, [7]), (0, Fn 1, [7::nat])]\<rparr> ''y'' =
      events adapters_and_emits ''y''"
    by simp
  from other_event_names_unchanged [OF ne, of adapters_and_emits "Fn 3" second_throws 0 0 "[7]"]
    wf quiet' no_emit
  have "\<exists>w'. final (emit second_throws (Suc 0) 0 adapters_and_emits ''x'' [7]) = Some w' \<and>
      events w' ''y'' = events adapters_and_emits ''y''"
    by blast
  with run' have 2: "\<exists>w'. emit second_throws (Suc 0) 0 adapters_and_emits ''x'' [7] =
        Throws (ListenerError 42) w' \<and> events w' ''x'' = Some [Fn 1] \<and>
        events w' ''y'' = events adapters_and_emits ''y''"
    by simp
  from ne reg wf quiet run 1 have "''x'' \<noteq> ''y'' \<and>
   on adapters_and_emits ''x'' (Fn 3) =
     Returns () (adapters_and_emits\<lparr>events := (events adapters_and_emits)
        (''x'' \<mapsto> [OnceWrapper 0 ''x'' (Fn 0), Fn 1, Fn 3])\<rparr>) \<and>
   well_formed adapters_and_emits \<and>
   (\<forall>n args v. list_all (onlooker (entry_plain (events adapters_and_emits ''y'')) ''y'') (emits_z n args v)) \<and>
   (\<exists>w'. emit emits_z (Suc (Suc 0)) 0 adapters_and_emits ''x'' [7] = Returns True w' \<and>
         events w' ''x'' = Some [Fn 1] \<and>
         events w' ''y'' = events adapters_and_emits ''y'' \<and>
         events w' ''y'' = Some [OnceWrapper 1 ''y'' (Fn 2)])"
    by simp
  with quiet' no_emit 2 show ?thesis by blast
qed

text \<open>
  C10, as the spec states it, fails: after \<open>on('x', relay); once('y', g)\<close>, where
  \<open>relay\<close> calls \<open>emit('y', ...)\<close>, no function of the calling code calls \<open>on\<close>, \<open>off\<close>
  or \<open>once\<close>, yet \<open>emit('x', 7)\<close> changes the entry of \<open>'y'\<close> from the adapter to the
  empty sequence: the nested \<open>emit('y')\<close> fires the adapter, which removes itself.
\<close>

theorem nested_emit_fires_other_adapter:
  "''x'' \<noteq> ''y'' \<and>
   run (emit relays 0) 0 [CallOn ''x'' 0, CallOnce ''y'' 1] fresh_emitter = Returns () relay_world \<and>
   well_formed relay_world \<and>
   (\<forall>n args v. list_all (onlooker True ''y'') (relays n args v)) \<and>
   events relay_world ''y'' = Some [OnceWrapper 0 ''y'' (Fn 1)] \<and>
   emit relays (Suc (Suc 0)) 0 relay_world ''x'' [7] = Returns True relay_fired \<and>
   events relay_fired ''y'' = Some [] \<and>
   events relay_fired ''y'' \<noteq> events relay_world ''y''"
proof -
  have 1: "run (emit relays 0) 0 [CallOn ''x'' 0, CallOnce ''y'' 1] fresh_emitter =
      Returns () relay_world"
    by (simp add: perform_def on_eq once_eq fresh_emitter_def new_BareEmitter_def relay_world_def
        Object_prototype_def)
  have 2: "well_formed relay_world"
    by (auto simp add: well_formed_def relay_world_def Object_prototype_def split: if_splits)
  have 3: "\<forall>n args v. list_all (onlooker True ''y'') (relays n args v)"
    by (simp add: relays_def)
  have 4: "emit relays (Suc (Suc 0)) 0 relay_world ''x'' [7] = Returns True relay_fired"
    by (simp add: relay_world_def relay_fired_def relays_def emit_body_def get_def perform_def
        off_eq Let_def)
  have 5: "events relay_world ''y'' = Some [OnceWrapper 0 ''y'' (Fn 1)]"
    "events relay_fired ''y'' = Some []"
    by (simp_all add: relay_world_def relay_fired_def)
  from 1 2 3 4 5 show ?thesis by simp
qed

end
